theory Spec2Isabelle
  imports Complex_Main "HOL-Library.Sublist"
begin

section \<open>Python values, errors and library functions\<close>

text \<open>
  The program is Python 2 (\<^verbatim>\<open>fp.next()\<close>): strings are byte strings, modelled as
  \<^typ>\<open>string\<close>. Every exception the code can raise is a value of \<open>error\<close>; a function that
  may raise returns \<open>error + 'a\<close> with \<open>Inl\<close> for the exception.
\<close>

datatype error = StopIteration | ValueError | IndexError | KeyError | TypeError | AttributeError

text \<open>
  A Python float is an IEEE double: a finite real number, an infinity or a NaN. The code
  never compares or computes with floats, it only converts them from and to text.
\<close>

datatype pyfloat = Finite real | PosInf | NegInf | NaN

text \<open>The values stored in a process dictionary, and the result of \<^verbatim>\<open>ndarray.tolist()\<close>.\<close>

datatype pyval = Str string | Float pyfloat | List "pyval list"

text \<open>
  Conversions between text and floating-point numbers are library functions whose rounding
  is not modelled. They are parameters of the model, collected in one record:
  \<^item> \<open>py_float\<close> is the builtin \<^verbatim>\<open>float(s)\<close> on a string (\<open>None\<close>: it raises ValueError);
  \<^item> \<open>np_float\<close> is the converter \<^verbatim>\<open>np.loadtxt\<close> applies to each token of a table
    (\<open>None\<close>: it raises ValueError);
  \<^item> \<open>py_repr\<close> is \<^verbatim>\<open>repr(x)\<close> on a value that is not a string;
  \<^item> \<open>fmt_10_6E\<close> is \<^verbatim>\<open>'%10.6E' % x\<close> on a float.
\<close>

record pylib =
  py_float :: "string \<Rightarrow> pyfloat option"
  np_float :: "string \<Rightarrow> pyfloat option"
  py_repr :: "pyval \<Rightarrow> string"
  fmt_10_6E :: "pyfloat \<Rightarrow> string"

text \<open>
  A small instance of the library for the worked examples below: it reads the decimal
  literals listed, each of which is a double exactly, and rejects every other token. The
  general theorems hold for every library.
\<close>

definition demo_float :: "string \<Rightarrow> pyfloat option" where
  "demo_float = map_of
     [(''0.0'', Finite 0), (''0.25'', Finite (1 / 4)), (''0.5'', Finite (1 / 2)),
      (''1.0'', Finite 1), (''2.0'', Finite 2)]"

definition demo_repr :: "pyval \<Rightarrow> string" where
  "demo_repr v =
     (case v of
        Float x \<Rightarrow> (if x = Finite 0 then ''0.0'' else if x = Finite 1 then ''1.0'' else ''?'')
      | _ \<Rightarrow> ''?'')"

definition demo_fmt :: "pyfloat \<Rightarrow> string" where
  "demo_fmt x =
     (if x = Finite 0 then ''0.000000E+00'' else if x = Finite 1 then ''1.000000E+00'' else ''?'')"

definition demo_lib :: pylib where
  "demo_lib = \<lparr>py_float = demo_float, np_float = demo_float, py_repr = demo_repr,
     fmt_10_6E = demo_fmt\<rparr>"

definition to_float :: "pylib \<Rightarrow> string \<Rightarrow> error + pyfloat" where
  "to_float lib s = (case py_float lib s of None \<Rightarrow> Inl ValueError | Some x \<Rightarrow> Inr x)"

text \<open>\<^verbatim>\<open>xs[i]\<close> for a non-negative literal index: out of range raises IndexError.\<close>

definition getitem :: "'a list \<Rightarrow> nat \<Rightarrow> error + 'a" where
  "getitem xs i = (if i < length xs then Inr (xs ! i) else Inl IndexError)"

subsection \<open>String methods\<close>

text \<open>
  \<^verbatim>\<open>str.strip()\<close>, \<^verbatim>\<open>str.lstrip()\<close> and \<^verbatim>\<open>str.split()\<close> without arguments work on
  the six ASCII whitespace characters: tab, line feed, vertical tab, form feed, carriage
  return and space.
\<close>

definition isspace :: "char \<Rightarrow> bool" where
  "isspace c = (c \<in> set [CHR 0x09, CHR 0x0A, CHR 0x0B, CHR 0x0C, CHR 0x0D, CHR '' ''])"

definition lstrip :: "string \<Rightarrow> string" where
  "lstrip s = dropWhile isspace s"

definition rstrip :: "string \<Rightarrow> string" where
  "rstrip s = rev (dropWhile isspace (rev s))"

definition strip :: "string \<Rightarrow> string" where
  "strip s = rstrip (lstrip s)"

text \<open>
  \<^verbatim>\<open>s.split()\<close>: the maximal runs of non-whitespace characters, in order. The first
  argument is the token being collected.
\<close>

fun split_aux :: "string \<Rightarrow> string \<Rightarrow> string list" where
  "split_aux w [] = (if w = [] then [] else [w])"
| "split_aux w (c # cs) =
     (if isspace c then (if w = [] then split_aux [] cs else w # split_aux [] cs)
      else split_aux (w @ [c]) cs)"

definition split :: "string \<Rightarrow> string list" where
  "split s = split_aux [] s"

section \<open>The two regular expressions\<close>

text \<open>
  \<^verbatim>\<open>RE_SEP = re.compile("-----+")\<close> is four dashes followed by one or more dashes.
  \<^verbatim>\<open>RE_SEP.match(s)\<close> anchors the pattern at the start of \<open>s\<close> only: it succeeds when
  \<open>s\<close> begins with the four dashes and the next character is a dash. What follows the
  dashes is not looked at.
\<close>

definition RE_SEP_match :: "string \<Rightarrow> bool" where
  "RE_SEP_match s =
     (take 4 s = ''----'' \<and> (case drop 4 s of [] \<Rightarrow> False | c # _ \<Rightarrow> c = CHR ''-''))"

text \<open>
  \<^verbatim>\<open>RE_ARROW = re.compile('<?->')\<close> is an optional \<open><\<close> followed by \<open>->\<close>.
  \<^verbatim>\<open>RE_ARROW.split(s)\<close> scans \<open>s\<close> from the left; at each position the greedy \<open><?\<close>
  first tries \<open><->\<close>, then \<open>->\<close>; a match closes the current piece and scanning resumes
  after it. The first argument is the piece being collected.
\<close>

fun RE_ARROW_split_aux :: "string \<Rightarrow> string \<Rightarrow> string list" where
  "RE_ARROW_split_aux cur [] = [cur]"
| "RE_ARROW_split_aux cur (c # cs) =
     (if c = CHR ''<'' \<and> take 2 cs = ''->'' then cur # RE_ARROW_split_aux [] (drop 2 cs)
      else if c = CHR ''-'' \<and> take 1 cs = ''>'' then cur # RE_ARROW_split_aux [] (drop 1 cs)
      else RE_ARROW_split_aux (cur @ [c]) cs)"

definition RE_ARROW_split :: "string \<Rightarrow> string list" where
  "RE_ARROW_split s = RE_ARROW_split_aux [] s"

text \<open>
  The number of non-overlapping matches of \<^verbatim>\<open>RE_ARROW\<close> in a string, found by the same
  left-to-right scan (\<^verbatim>\<open>len(RE_ARROW.findall(s))\<close>).
\<close>

fun RE_ARROW_count :: "string \<Rightarrow> nat" where
  "RE_ARROW_count [] = 0"
| "RE_ARROW_count (c # cs) =
     (if c = CHR ''<'' \<and> take 2 cs = ''->'' then Suc (RE_ARROW_count (drop 2 cs))
      else if c = CHR ''-'' \<and> take 1 cs = ''>'' then Suc (RE_ARROW_count (drop 1 cs))
      else RE_ARROW_count cs)"

section \<open>The input stream\<close>

text \<open>
  The file object is consumed line by line, by \<^verbatim>\<open>for line in fp\<close> and by
  \<^verbatim>\<open>fp.next()\<close> alike. Its state is the list of lines not read yet; every reader returns
  the lines it leaves.
\<close>

type_synonym stream = "string list"

definition fp_next :: "stream \<Rightarrow> error + (string \<times> stream)" where
  "fp_next fp = (case fp of [] \<Rightarrow> Inl StopIteration | line # fp' \<Rightarrow> Inr (line, fp'))"

text \<open>
  \<^verbatim>\<open>_read_until_sep\<close>: the stripped lines before the first separator. The separator is
  consumed; a stream that ends first is read to its end.
\<close>

fun read_until_sep :: "stream \<Rightarrow> string list \<times> stream" where
  "read_until_sep [] = ([], [])"
| "read_until_sep (line # fp) =
     (if RE_SEP_match (strip line) then ([], fp)
      else (case read_until_sep fp of (lines, fp') \<Rightarrow> (strip line # lines, fp')))"

section \<open>Reading the numeric table\<close>

text \<open>
  \<^verbatim>\<open>np.loadtxt(lines).tolist()\<close> is NumPy's. With the default arguments it cuts each line
  at the first \<open>#\<close>, splits it at whitespace and drops the lines left without a token. The
  first remaining line fixes the number of columns; a later line with another number of
  tokens, or a token the converter rejects, raises ValueError, in line order. The array is
  squeezed before it is returned: a table of one row and one column becomes a scalar, a
  table of one row or of one column becomes a flat list, and no line at all gives the
  empty list.
\<close>

definition split_line :: "string \<Rightarrow> string list" where
  "split_line line = split (takeWhile (\<lambda>c. c \<noteq> CHR ''#'') line)"

fun convert_row :: "(string \<Rightarrow> pyfloat option) \<Rightarrow> string list \<Rightarrow> error + pyfloat list" where
  "convert_row conv [] = Inr []"
| "convert_row conv (v # vals) =
     (case conv v of None \<Rightarrow> Inl ValueError
      | Some x \<Rightarrow> (case convert_row conv vals of Inl e \<Rightarrow> Inl e | Inr xs \<Rightarrow> Inr (x # xs)))"

fun load_rows :: "(string \<Rightarrow> pyfloat option) \<Rightarrow> nat \<Rightarrow> string list list \<Rightarrow> error + pyfloat list list" where
  "load_rows conv N [] = Inr []"
| "load_rows conv N (vals # rest) =
     (if length vals \<noteq> N then Inl ValueError
      else (case convert_row conv vals of Inl e \<Rightarrow> Inl e
        | Inr items \<Rightarrow> (case load_rows conv N rest of Inl e \<Rightarrow> Inl e | Inr X \<Rightarrow> Inr (items # X))))"

fun squeeze_tolist :: "nat \<Rightarrow> pyfloat list list \<Rightarrow> pyval" where
  "squeeze_tolist N [] = List []"
| "squeeze_tolist N [row] = (case row of [x] \<Rightarrow> Float x | _ \<Rightarrow> List (map Float row))"
| "squeeze_tolist N X =
     (if N = 1 then List (map Float (concat X)) else List (map (\<lambda>row. List (map Float row)) X))"

definition loadtxt_tolist :: "pylib \<Rightarrow> string list \<Rightarrow> error + pyval" where
  "loadtxt_tolist lib lines =
     (case filter (\<lambda>vals. vals \<noteq> []) (map split_line lines) of
        [] \<Rightarrow> Inr (List [])
      | first_vals # rest \<Rightarrow>
          (case load_rows (np_float lib) (length first_vals) (first_vals # rest) of
             Inl e \<Rightarrow> Inl e
           | Inr X \<Rightarrow> Inr (squeeze_tolist (length first_vals) X)))"

section \<open>Block readers\<close>

type_synonym process = "string \<rightharpoonup> pyval"

text \<open>
  \<^verbatim>\<open>_read_block\<close>: the target line, the argument line when \<open>has_arg\<close>, the comment lines up
  to a separator (joined and then dropped by the code), the data lines up to the next
  separator. It returns \<open>(target, arg, data)\<close> and the rest of the stream.
\<close>

definition read_block :: "pylib \<Rightarrow> stream \<Rightarrow> bool \<Rightarrow> error + ((string \<times> string option \<times> pyval) \<times> stream)" where
  "read_block lib fp has_arg =
     (case fp_next fp of Inl e \<Rightarrow> Inl e
      | Inr (line1, fp1) \<Rightarrow>
          (case (if has_arg
                 then (case fp_next fp1 of Inl e \<Rightarrow> Inl e
                       | Inr (line2, fp2) \<Rightarrow> Inr (Some (strip line2), fp2))
                 else Inr (None, fp1)) of
             Inl e \<Rightarrow> Inl e
           | Inr (arg, fp2) \<Rightarrow>
               (case read_until_sep fp2 of (comment, fp3) \<Rightarrow>
                 (case read_until_sep fp3 of (table, fp4) \<Rightarrow>
                   (case loadtxt_tolist lib table of Inl e \<Rightarrow> Inl e
                    | Inr data \<Rightarrow> Inr ((strip line1, arg, data), fp4))))))"

text \<open>\<^verbatim>\<open>float(arg.split()[i])\<close>; \<open>arg\<close> is \<^verbatim>\<open>None\<close> when no argument line was read.\<close>

definition arg_float :: "pylib \<Rightarrow> string option \<Rightarrow> nat \<Rightarrow> error + pyfloat" where
  "arg_float lib arg i =
     (case arg of None \<Rightarrow> Inl AttributeError
      | Some a \<Rightarrow> (case getitem (split a) i of Inl e \<Rightarrow> Inl e | Inr tok \<Rightarrow> to_float lib tok))"

definition read_momentum :: "pylib \<Rightarrow> stream \<Rightarrow> error + (process \<times> stream)" where
  "read_momentum lib fp =
     (case read_block lib fp True of Inl e \<Rightarrow> Inl e
      | Inr ((target, arg, data), fp') \<Rightarrow>
          (case arg_float lib arg 0 of Inl e \<Rightarrow> Inl e
           | Inr mass_ratio \<Rightarrow>
               Inr ([''target'' \<mapsto> Str target, ''mass_ratio'' \<mapsto> Float mass_ratio,
                     ''data'' \<mapsto> data], fp')))"

text \<open>
  \<^verbatim>\<open>_read_excitation\<close>. The assignment \<^verbatim>\<open>lhs, rhs = [...]\<close> raises ValueError unless the
  list has exactly two elements. In the reversible branch the tuple is evaluated from the
  left: the first float, then the second.
\<close>

definition read_excitation :: "pylib \<Rightarrow> stream \<Rightarrow> error + (process \<times> stream)" where
  "read_excitation lib fp =
     (case read_block lib fp True of Inl e \<Rightarrow> Inl e
      | Inr ((target, arg, data), fp') \<Rightarrow>
          (case map strip (RE_ARROW_split target) of
             [lhs, rhs] \<Rightarrow>
               (let d = [''target'' \<mapsto> Str lhs, ''product'' \<mapsto> Str rhs, ''data'' \<mapsto> data] in
                if ''<->'' \<in> set (split target)
                then (case arg_float lib arg 0 of Inl e \<Rightarrow> Inl e
                      | Inr threshold \<Rightarrow>
                          (case arg_float lib arg 1 of Inl e \<Rightarrow> Inl e
                           | Inr weight_ratio \<Rightarrow>
                               Inr (d(''weight_ratio'' \<mapsto> Float weight_ratio,
                                      ''threshold'' \<mapsto> Float threshold), fp')))
                else (case arg_float lib arg 0 of Inl e \<Rightarrow> Inl e
                      | Inr threshold \<Rightarrow> Inr (d(''threshold'' \<mapsto> Float threshold), fp')))
           | _ \<Rightarrow> Inl ValueError))"

definition read_attachment :: "pylib \<Rightarrow> stream \<Rightarrow> error + (process \<times> stream)" where
  "read_attachment lib fp =
     (case read_block lib fp False of Inl e \<Rightarrow> Inl e
      | Inr ((target, arg, data), fp') \<Rightarrow>
          (let d = [''data'' \<mapsto> data, ''threshold'' \<mapsto> Float (Finite 0)];
               lr = map strip (RE_ARROW_split target)
           in if length lr = 2
              then Inr (d(''target'' \<mapsto> Str (lr ! 0), ''product'' \<mapsto> Str (lr ! 1)), fp')
              else Inr (d(''target'' \<mapsto> Str target), fp')))"

text \<open>The dispatch table \<^verbatim>\<open>KEYWORDS\<close>; \<open>None\<close> is the KeyError of a missing key.\<close>

definition KEYWORDS :: "string \<rightharpoonup> (pylib \<Rightarrow> stream \<Rightarrow> error + (process \<times> stream))" where
  "KEYWORDS = map_of
     [(''MOMENTUM'', read_momentum),
      (''ELASTIC'', read_momentum),
      (''EFFECTIVE'', read_momentum),
      (''EXCITATION'', read_excitation),
      (''IONIZATION'', read_excitation),
      (''ATTACHMENT'', read_attachment)]"

subsection \<open>Readers only consume\<close>

lemma read_until_sep_length: "length (snd (read_until_sep fp)) \<le> length fp"
  by (induction fp) (auto split: prod.splits)

lemma read_block_length:
  assumes "read_block lib fp has_arg = Inr (r, fp')"
  shows "length fp' \<le> length fp"
proof -
  have two: "length (snd (read_until_sep (snd (read_until_sep s)))) \<le> length s" for s
    using read_until_sep_length [of s] read_until_sep_length [of "snd (read_until_sep s)"]
    by linarith
  from assms show ?thesis
    using two [of "tl fp"] two [of "tl (tl fp)"]
    by (cases fp; cases "tl fp")
       (auto simp: read_block_def fp_next_def split: if_splits sum.splits prod.splits)
qed

lemma read_momentum_length: "read_momentum lib fp = Inr (d, fp') \<Longrightarrow> length fp' \<le> length fp"
  by (auto simp: read_momentum_def split: sum.splits prod.splits dest: read_block_length)

lemma read_excitation_length: "read_excitation lib fp = Inr (d, fp') \<Longrightarrow> length fp' \<le> length fp"
  by (auto simp: read_excitation_def Let_def split: sum.splits prod.splits list.splits if_splits
      dest: read_block_length)

lemma read_attachment_length: "read_attachment lib fp = Inr (d, fp') \<Longrightarrow> length fp' \<le> length fp"
  by (auto simp: read_attachment_def Let_def split: sum.splits prod.splits if_splits
      dest: read_block_length)

lemma KEYWORDS_cases:
  assumes "KEYWORDS key = Some fread"
  shows "fread = read_momentum \<or> fread = read_excitation \<or> fread = read_attachment"
  using assms by (auto simp: KEYWORDS_def split: if_splits)

lemma KEYWORDS_length:
  assumes "KEYWORDS key = Some fread" and "fread lib fp = Inr (d, fp')"
  shows "length fp' \<le> length fp"
  using KEYWORDS_cases [OF assms(1)] assms(2)
  by (auto dest: read_momentum_length read_excitation_length read_attachment_length)

section \<open>The parser\<close>

text \<open>
  \<^verbatim>\<open>parse\<close>: the loop \<^verbatim>\<open>for line in fp\<close> with the list \<open>processes\<close> it appends to. A line
  whose stripped text is no key of \<^verbatim>\<open>KEYWORDS\<close> raises KeyError at the lookup, which the
  loop catches and ignores. No reader looks a dictionary up, so no other KeyError arises
  inside the \<^verbatim>\<open>try\<close>; every other exception leaves \<^verbatim>\<open>parse\<close>.
\<close>

function parse_loop :: "pylib \<Rightarrow> process list \<Rightarrow> stream \<Rightarrow> error + process list" where
  "parse_loop lib processes [] = Inr processes"
| "parse_loop lib processes (line # fp) =
     (case KEYWORDS (strip line) of
        None \<Rightarrow> parse_loop lib processes fp
      | Some fread \<Rightarrow>
          (case fread lib fp of
             Inl e \<Rightarrow> Inl e
           | Inr (d, fp') \<Rightarrow> parse_loop lib (processes @ [d(''kind'' \<mapsto> Str (strip line))]) fp'))"
  by pat_completeness auto
termination
  by (relation "measure (\<lambda>(lib, processes, fp). length fp)")
     (auto dest: KEYWORDS_length simp: less_Suc_eq_le)

definition parse :: "pylib \<Rightarrow> stream \<Rightarrow> error + process list" where
  "parse lib fp = parse_loop lib [] fp"

section \<open>The tree document\<close>

text \<open>
  An \<^verbatim>\<open>XMLnode\<close> has a name, a value, attributes and children. The attributes are a
  dictionary written out in its iteration order; the model keeps them as an association
  list in insertion order. The index \<^verbatim>\<open>_childmap\<close> refers to the same child objects as
  \<^verbatim>\<open>_children\<close> and is read by \<^verbatim>\<open>child()\<close> only, which neither the serializer nor the
  converter calls; it is left out.
\<close>

datatype XMLnode = XMLnode (node_name: string) (node_value: string)
  (node_attribs: "(string \<times> string) list") (node_children: "XMLnode list")

definition nl :: string where
  "nl = [CHR 0x0A]"

definition dquote :: string where
  "dquote = [CHR 0x22]"

text \<open>The table \<^verbatim>\<open>indent\<close>, sixteen strings of spaces, as the source writes them.\<close>

definition indent :: "string list" where
  "indent =
     ['''',
      '' '',
      ''  '',
      ''   '',
      ''    '',
      ''     '',
      ''      '',
      ''       '',
      ''        '',
      ''          '',
      ''           '',
      ''            '',
      ''             '',
      ''              '',
      ''               '',
      ''                '']"

text \<open>\<^verbatim>\<open>__init__\<close>: a value that is not a string is replaced by its \<^verbatim>\<open>repr\<close>; leading
  whitespace is stripped.\<close>

definition XMLnode_init :: "pylib \<Rightarrow> string \<Rightarrow> pyval \<Rightarrow> XMLnode" where
  "XMLnode_init lib name v =
     XMLnode name (case v of Str s \<Rightarrow> lstrip s | _ \<Rightarrow> lstrip (py_repr lib v)) [] []"

text \<open>\<^verbatim>\<open>addChild\<close> appends a new node to the children; the model returns the parent.\<close>

definition addChild :: "pylib \<Rightarrow> XMLnode \<Rightarrow> string \<Rightarrow> pyval \<Rightarrow> XMLnode" where
  "addChild lib node name v =
     XMLnode (node_name node) (node_value node) (node_attribs node)
       (node_children node @ [XMLnode_init lib name v])"

definition addComment :: "pylib \<Rightarrow> XMLnode \<Rightarrow> string \<Rightarrow> XMLnode" where
  "addComment lib node comment = addChild lib node ''_comment_'' (Str comment)"

text \<open>\<^verbatim>\<open>node[key] = value\<close>: a key already present keeps its place.\<close>

definition setitem :: "XMLnode \<Rightarrow> string \<Rightarrow> string \<Rightarrow> XMLnode" where
  "setitem node key v =
     XMLnode (node_name node) (node_value node)
       (if key \<in> set (map fst (node_attribs node))
        then map (\<lambda>(k, w). if k = key then (k, v) else (k, w)) (node_attribs node)
        else node_attribs node @ [(key, v)])
       (node_children node)"

subsection \<open>Serialization\<close>

text \<open>
  The serializer appends strings to a list \<open>s\<close>, joined at the end. Each method takes \<open>s\<close>
  and returns it extended. \<^verbatim>\<open>indent[level]\<close> raises IndexError from level 16 on.
\<close>

definition write_comment :: "XMLnode \<Rightarrow> string list \<Rightarrow> nat \<Rightarrow> error + string list" where
  "write_comment node s level =
     (case getitem indent level of Inl e \<Rightarrow> Inl e
      | Inr indnt \<Rightarrow>
          (let s1 = s @ [nl @ indnt @ ''<!--''];
               v = node_value node;
               v1 = (if v \<noteq> [] \<and> hd v \<noteq> CHR '' '' then CHR '' '' # v else v);
               v2 = (if v \<noteq> [] \<and> last v1 \<noteq> CHR '' '' then v1 @ '' '' else v1)
           in Inr (s1 @ [v2 @ ''-->''])))"

definition write_attribs :: "XMLnode \<Rightarrow> string list \<Rightarrow> string list" where
  "write_attribs node s =
     s @ map (\<lambda>(a, v). '' '' @ a @ ''='' @ dquote @ v @ dquote) (node_attribs node)"

text \<open>The loop of \<^verbatim>\<open>write_value\<close>: one output line for each line of the value.\<close>

function write_value_loop :: "string \<Rightarrow> string \<Rightarrow> string list \<Rightarrow> string list" where
  "write_value_loop indnt vv s =
     (if CHR 0x0A \<in> set vv
      then write_value_loop indnt
             (lstrip (drop 1 (dropWhile (\<lambda>c. c \<noteq> CHR 0x0A) vv)))
             (s @ [nl @ ''  '', indnt, takeWhile (\<lambda>c. c \<noteq> CHR 0x0A) vv])
      else s @ [nl @ ''  '', indnt, vv])"
  by pat_completeness auto
termination
proof (relation "measure (\<lambda>(indnt, vv, s). length vv)")
  fix indnt :: string and vv :: string and s :: "string list"
  let ?rest = "drop 1 (dropWhile (\<lambda>c. c \<noteq> CHR 0x0A) vv)"
  assume "CHR 0x0A \<in> set vv"
  then have "dropWhile (\<lambda>c. c \<noteq> CHR 0x0A) vv \<noteq> []"
    by (simp add: dropWhile_eq_Nil_conv)
  then have "length ?rest < length vv"
    using length_dropWhile_le [of "\<lambda>c. c \<noteq> CHR 0x0A" vv]
    by (cases "dropWhile (\<lambda>c. c \<noteq> CHR 0x0A) vv") auto
  moreover have "length (lstrip ?rest) \<le> length ?rest"
    unfolding lstrip_def by (rule length_dropWhile_le)
  ultimately have "length (lstrip ?rest) < length vv"
    by (rule le_less_trans [rotated])
  then show "((indnt, lstrip ?rest, s @ [nl @ ''  '', indnt, takeWhile (\<lambda>c. c \<noteq> CHR 0x0A) vv]),
      (indnt, vv, s)) \<in> measure (\<lambda>(indnt, vv, s). length vv)"
    by simp
qed simp

definition write_value :: "XMLnode \<Rightarrow> string list \<Rightarrow> nat \<Rightarrow> error + string list" where
  "write_value node s level =
     (case getitem indent level of Inl e \<Rightarrow> Inl e
      | Inr indnt \<Rightarrow>
          (let vv = lstrip (node_value node)
           in if CHR 0x0A \<in> set vv then Inr (write_value_loop indnt vv s)
              else Inr (s @ [node_value node])))"

text \<open>
  \<^verbatim>\<open>_write\<close>. The test \<^verbatim>\<open>if not self.name\<close> reads the bound method \<^verbatim>\<open>name\<close>, which is
  always true, so it never returns there. \<open>write_children\<close> is the loop over the children:
  a newline, then the child at \<open>level + 2\<close>.
\<close>

fun write_node :: "XMLnode \<Rightarrow> string list \<Rightarrow> nat \<Rightarrow> error + string list"
  and write_children :: "XMLnode list \<Rightarrow> string list \<Rightarrow> nat \<Rightarrow> error + string list" where
  "write_node (XMLnode name v attribs children) s level =
     (if name = ''_comment_'' then write_comment (XMLnode name v attribs children) s level
      else (case getitem indent level of Inl e \<Rightarrow> Inl e
        | Inr indnt \<Rightarrow>
            (let s1 = write_attribs (XMLnode name v attribs children) (s @ [indnt, ''<'', name])
             in if v = [] \<and> children = [] then Inr (s1 @ [''/>''])
                else (case (if v \<noteq> []
                            then write_value (XMLnode name v attribs children) (s1 @ [''>'']) level
                            else Inr (s1 @ [''>''])) of
                        Inl e \<Rightarrow> Inl e
                      | Inr s2 \<Rightarrow>
                          (case write_children children s2 level of Inl e \<Rightarrow> Inl e
                           | Inr s3 \<Rightarrow>
                               Inr ((if children \<noteq> [] then s3 @ [nl, indnt] else s3)
                                    @ [''</'', name, ''>'']))))))"
| "write_children [] s level = Inr s"
| "write_children (c # cs) s level =
     (case write_node c (s @ [nl]) (level + 2) of Inl e \<Rightarrow> Inl e
      | Inr s' \<Rightarrow> write_children cs s' level)"

text \<open>\<^verbatim>\<open>XMLnode.write\<close>, up to the text handed to the file.\<close>

definition XMLnode_write :: "XMLnode \<Rightarrow> error + string" where
  "XMLnode_write node =
     (case write_node node [''<?xml version='' @ dquote @ ''1.0'' @ dquote @ ''?>'' @ nl] 0 of
        Inl e \<Rightarrow> Inl e
      | Inr s \<Rightarrow> Inr (concat (s @ [nl])))"

section \<open>The converter\<close>

text \<open>\<^verbatim>\<open>p[key]\<close> on a process dictionary.\<close>

definition lookup :: "process \<Rightarrow> string \<Rightarrow> error + pyval" where
  "lookup p key = (case p key of None \<Rightarrow> Inl KeyError | Some v \<Rightarrow> Inr v)"

text \<open>\<^verbatim>\<open>s.find(sub) is not -1\<close>: \<open>sub\<close> occurs in \<open>s\<close>.\<close>

fun str_contains :: "string \<Rightarrow> string \<Rightarrow> bool" where
  "str_contains [] sub = (sub = [])"
| "str_contains (c # cs) sub = (take (length sub) (c # cs) = sub \<or> str_contains cs sub)"

text \<open>\<^verbatim>\<open>str(i)\<close> for the index of \<^verbatim>\<open>enumerate\<close>.\<close>

fun str_nat :: "nat \<Rightarrow> string" where
  "str_nat n =
     (if n < 10 then [char_of (48 + n)] else str_nat (n div 10) @ [char_of (48 + n mod 10)])"

text \<open>
  \<^verbatim>\<open>j[i]\<close> and \<^verbatim>\<open>'%10.6E ' % x\<close> on the rows of the table: a float cannot be indexed,
  and only a float can be formatted.
\<close>

definition subscript :: "pyval \<Rightarrow> nat \<Rightarrow> error + pyval" where
  "subscript v i =
     (case v of
        List xs \<Rightarrow> getitem xs i
      | Str cs \<Rightarrow> (case getitem cs i of Inl e \<Rightarrow> Inl e | Inr c \<Rightarrow> Inr (Str [c]))
      | Float x \<Rightarrow> Inl TypeError)"

definition format_E :: "pylib \<Rightarrow> pyval \<Rightarrow> error + string" where
  "format_E lib v = (case v of Float x \<Rightarrow> Inr (fmt_10_6E lib x @ '' '') | _ \<Rightarrow> Inl TypeError)"

text \<open>\<^verbatim>\<open>for j in p['data']\<close>: a float is not iterable.\<close>

definition iter :: "pyval \<Rightarrow> error + pyval list" where
  "iter v =
     (case v of
        List xs \<Rightarrow> Inr xs
      | Str cs \<Rightarrow> Inr (map (\<lambda>c. Str [c]) cs)
      | Float x \<Rightarrow> Inl TypeError)"

fun data_loop :: "pylib \<Rightarrow> pyval list \<Rightarrow> string \<Rightarrow> error + string" where
  "data_loop lib [] data = Inr data"
| "data_loop lib (j # js) data =
     (case subscript j 0 of Inl e \<Rightarrow> Inl e
      | Inr a \<Rightarrow>
          (case format_E lib a of Inl e \<Rightarrow> Inl e
           | Inr sa \<Rightarrow>
               (case subscript j 1 of Inl e \<Rightarrow> Inl e
                | Inr b \<Rightarrow>
                    (case format_E lib b of Inl e \<Rightarrow> Inl e
                     | Inr sb \<Rightarrow> data_loop lib js (data @ sa @ sb @ nl)))))"

text \<open>
  The two children \<open>products\<close> and \<open>threshold\<close> that the EXCITATION, IONIZATION and
  ATTACHMENT branches of \<^verbatim>\<open>main\<close> add, each reading \<^verbatim>\<open>p['product']\<close> and then
  \<^verbatim>\<open>p['threshold']\<close>.
\<close>

definition add_products_threshold :: "pylib \<Rightarrow> process \<Rightarrow> XMLnode \<Rightarrow> error + XMLnode" where
  "add_products_threshold lib p r =
     (case lookup p ''product'' of Inl e \<Rightarrow> Inl e
      | Inr product \<Rightarrow>
          (case lookup p ''threshold'' of Inl e \<Rightarrow> Inl e
           | Inr threshold \<Rightarrow>
               Inr (addChild lib (addChild lib r ''products'' product) ''threshold'' threshold)))"

text \<open>
  The body of the loop of \<^verbatim>\<open>main\<close> for the process \<open>p\<close> at index \<open>i\<close>: the element
  \<open>r\<close> that ends up as a child of the root. The code appends \<open>r\<close> to the root first and
  fills it afterwards; the model builds it and \<open>main_loop\<close> appends it.
\<close>

definition process_node :: "pylib \<Rightarrow> nat \<Rightarrow> process \<Rightarrow> error + XMLnode" where
  "process_node lib i p =
     (let r0 = setitem (XMLnode_init lib ''process'' (Str [])) ''id'' (str_nat i) in
      case lookup p ''kind'' of Inl e \<Rightarrow> Inl e
      | Inr (Float x) \<Rightarrow> Inl AttributeError
      | Inr (List xs) \<Rightarrow> Inl AttributeError
      | Inr (Str kind) \<Rightarrow>
          (case lookup p ''target'' of Inl e \<Rightarrow> Inl e
           | Inr target \<Rightarrow>
               (let r1 = addChild lib (setitem r0 ''type'' kind) ''reactants'' target in
                case (if str_contains kind ''EXCITATION''
                      then (case add_products_threshold lib p r1 of Inl e \<Rightarrow> Inl e
                            | Inr r2 \<Rightarrow>
                                (case p ''weight_ratio'' of None \<Rightarrow> Inr r2
                                 | Some weight_ratio \<Rightarrow>
                                     Inr (addChild lib (setitem r2 ''reversible'' ''yes'')
                                            ''weight_ratio'' weight_ratio)))
                      else if str_contains kind ''IONIZATION''
                      then add_products_threshold lib p r1
                      else if str_contains kind ''ATTACHMENT''
                      then add_products_threshold lib p r1
                      else (case lookup p ''mass_ratio'' of Inl e \<Rightarrow> Inl e
                            | Inr mass_ratio \<Rightarrow>
                                Inr (addChild lib (addChild lib r1 ''products'' target)
                                       ''mass_ratio'' mass_ratio))) of
                  Inl e \<Rightarrow> Inl e
                | Inr r3 \<Rightarrow>
                    (case lookup p ''data'' of Inl e \<Rightarrow> Inl e
                     | Inr table \<Rightarrow>
                         (case iter table of Inl e \<Rightarrow> Inl e
                          | Inr rows \<Rightarrow>
                              (case data_loop lib rows [] of Inl e \<Rightarrow> Inl e
                               | Inr data \<Rightarrow> Inr (addChild lib r3 ''data'' (Str data))))))))"

fun main_loop :: "pylib \<Rightarrow> nat \<Rightarrow> process list \<Rightarrow> XMLnode \<Rightarrow> error + XMLnode" where
  "main_loop lib i [] x = Inr x"
| "main_loop lib i (p # ps) x =
     (case process_node lib i p of Inl e \<Rightarrow> Inl e
      | Inr r \<Rightarrow>
          main_loop lib (Suc i) ps
            (XMLnode (node_name x) (node_value x) (node_attribs x) (node_children x @ [r])))"

text \<open>
  \<^verbatim>\<open>main\<close>, from the lines of the input file to the text of the output file. An
  exception anywhere ends \<^verbatim>\<open>main\<close> before anything is written.
\<close>

definition main :: "pylib \<Rightarrow> stream \<Rightarrow> error + string" where
  "main lib fp =
     (case parse lib fp of Inl e \<Rightarrow> Inl e
      | Inr processes \<Rightarrow>
          (case main_loop lib 0 processes (XMLnode_init lib ''ctml'' (Str [])) of
             Inl e \<Rightarrow> Inl e
           | Inr x \<Rightarrow> XMLnode_write x))"

section \<open>Properties of the building blocks\<close>

subsection \<open>Facts about the string methods\<close>

lemma split_aux_spaces:
  "list_all isspace s \<Longrightarrow> split_aux w s = (if w = [] then [] else [w])"
  by (induction s arbitrary: w) auto

lemma split_aux_lstrip: "split_aux [] (lstrip s) = split_aux [] s"
  by (induction s) (auto simp: lstrip_def)

lemma rstrip_Cons:
  "rstrip (c # cs) = (if list_all isspace (c # cs) then [] else c # rstrip cs)"
proof (cases "list_all isspace cs")
  case True
  then have "dropWhile isspace (rev cs) = []"
    by (simp add: list_all_iff)
  then show ?thesis using True
    by (simp add: rstrip_def dropWhile_append)
next
  case False
  then have "dropWhile isspace (rev cs) \<noteq> []"
    by (auto simp: list_all_iff dropWhile_eq_Nil_conv)
  then show ?thesis using False
    by (simp add: rstrip_def dropWhile_append list_all_iff dropWhile_eq_Nil_conv)
qed

lemma rstrip_Nil: "rstrip [] = []"
  by (simp add: rstrip_def)

lemma split_aux_rstrip: "split_aux w (rstrip s) = split_aux w s"
proof (induction s arbitrary: w)
  case Nil
  show ?case by (simp add: rstrip_Nil)
next
  case (Cons c cs)
  show ?case
  proof (cases "list_all isspace (c # cs)")
    case True
    then show ?thesis
      using split_aux_spaces [of "c # cs" w] by (simp add: rstrip_Cons)
  next
    case False
    then show ?thesis
      using Cons.IH by (simp add: rstrip_Cons)
  qed
qed

lemma split_strip: "split (strip s) = split s"
  by (simp add: split_def strip_def split_aux_rstrip split_aux_lstrip)

subsection \<open>Facts about the arrow pattern\<close>

lemma RE_ARROW_split_aux_length:
  "length (RE_ARROW_split_aux cur s) = Suc (RE_ARROW_count s)"
  by (induction cur s rule: RE_ARROW_split_aux.induct) auto

lemma RE_ARROW_split_length: "length (RE_ARROW_split s) = Suc (RE_ARROW_count s)"
  by (simp add: RE_ARROW_split_def RE_ARROW_split_aux_length)

lemma RE_ARROW_split_aux_no_arrow:
  "\<not> str_contains s ''->'' \<Longrightarrow> RE_ARROW_split_aux cur s = [cur @ s]"
proof (induction s arbitrary: cur)
  case Nil
  show ?case by simp
next
  case (Cons c cs)
  from Cons.prems have no: "\<not> str_contains cs ''->''" and hd: "take 2 (c # cs) \<noteq> ''->''"
    by auto
  from no have "take 2 cs \<noteq> ''->''"
    by (cases cs) auto
  moreover from hd have "\<not> (c = CHR ''-'' \<and> take 1 cs = ''>'')"
    by (cases cs) auto
  ultimately show ?case
    using Cons.IH [OF no] by simp
qed

lemma RE_ARROW_split_aux_one:
  assumes "arrow = ''->'' \<or> arrow = ''<->''"
    and "\<not> str_contains l ''->''" and "\<not> str_contains r ''->''"
    and "l = [] \<or> last l \<noteq> CHR ''<''"
  shows "RE_ARROW_split_aux cur (l @ arrow @ r) = [cur @ l, r]"
  using assms(2,4)
proof (induction l arbitrary: cur)
  case Nil
  from assms(1) show ?case
    using RE_ARROW_split_aux_no_arrow [OF assms(3), of "[]"] by auto
next
  case (Cons c cs)
  from Cons.prems(1) have no: "\<not> str_contains cs ''->''" and hd: "take 2 (c # cs) \<noteq> ''->''"
    by auto
  have lastcs: "cs = [] \<or> last cs \<noteq> CHR ''<''"
    using Cons.prems(2) by (cases cs) auto
  have c1: "\<not> (c = CHR ''<'' \<and> take 2 (cs @ arrow @ r) = ''->'')"
  proof (cases cs)
    case Nil
    with Cons.prems(2) show ?thesis by simp
  next
    case (Cons d ds)
    with no assms(1) show ?thesis
      by (cases ds) auto
  qed
  have c2: "\<not> (c = CHR ''-'' \<and> take 1 (cs @ arrow @ r) = ''>'')"
    using hd assms(1) by (cases cs) auto
  show ?case
    using Cons.IH [OF no lastcs, of "cur @ [c]"] c1 c2 by simp
qed

subsection \<open>Facts about the stream readers\<close>

lemma read_until_sep_suffix: "suffix (snd (read_until_sep fp)) fp"
  by (induction fp) (auto split: prod.splits intro: suffix_ConsI)

lemma read_until_sep_append:
  assumes "list_all (\<lambda>l. \<not> RE_SEP_match (strip l)) pre" and "RE_SEP_match (strip sep)"
  shows "read_until_sep (pre @ sep # rest) = (map strip pre, rest)"
  using assms by (induction pre) auto

lemma read_until_sep_no_sep:
  assumes "list_all (\<lambda>l. \<not> RE_SEP_match (strip l)) pre"
  shows "read_until_sep pre = (map strip pre, [])"
  using assms by (induction pre) auto

lemma read_block_suffix:
  assumes "read_block lib fp has_arg = Inr (r, fp')"
  shows "suffix fp' fp"
proof -
  have two: "suffix (snd (read_until_sep (snd (read_until_sep s)))) s" for s
    using read_until_sep_suffix [of s] read_until_sep_suffix [of "snd (read_until_sep s)"]
    by (rule suffix_order.trans [rotated])
  from assms show ?thesis
    using two [of "tl fp"] two [of "tl (tl fp)"]
    by (cases fp; cases "tl fp")
       (auto simp: read_block_def fp_next_def split: if_splits sum.splits prod.splits
         intro: suffix_ConsI)
qed

lemma read_momentum_suffix: "read_momentum lib fp = Inr (d, fp') \<Longrightarrow> suffix fp' fp"
  by (auto simp: read_momentum_def split: sum.splits prod.splits dest: read_block_suffix)

lemma read_excitation_suffix: "read_excitation lib fp = Inr (d, fp') \<Longrightarrow> suffix fp' fp"
  by (auto simp: read_excitation_def Let_def split: sum.splits prod.splits list.splits if_splits
      dest: read_block_suffix)

lemma read_attachment_suffix: "read_attachment lib fp = Inr (d, fp') \<Longrightarrow> suffix fp' fp"
  by (auto simp: read_attachment_def Let_def split: sum.splits prod.splits if_splits
      dest: read_block_suffix)

lemma KEYWORDS_suffix:
  assumes "KEYWORDS key = Some fread" and "fread lib fp = Inr (d, fp')"
  shows "suffix fp' fp"
  using KEYWORDS_cases [OF assms(1)] assms(2)
  by (auto dest: read_momentum_suffix read_excitation_suffix read_attachment_suffix)

lemma KEYWORDS_dom:
  "KEYWORDS key \<noteq> None \<longleftrightarrow>
     key \<in> {''MOMENTUM'', ''ELASTIC'', ''EFFECTIVE'', ''EXCITATION'', ''IONIZATION'', ''ATTACHMENT''}"
  by (simp add: KEYWORDS_def)

subsection \<open>Facts about the numeric table\<close>

lemma convert_row_error: "convert_row conv vals = Inl e \<Longrightarrow> e = ValueError"
  by (induction vals arbitrary: e) (auto split: option.splits sum.splits)

lemma convert_row_ok:
  "convert_row conv vals = Inr xs \<Longrightarrow> list_all (\<lambda>v. conv v \<noteq> None) vals"
  by (induction vals arbitrary: xs) (auto split: option.splits sum.splits)

lemma load_rows_error: "load_rows conv N rows = Inl e \<Longrightarrow> e = ValueError"
  by (induction rows arbitrary: e)
     (auto split: if_splits sum.splits dest: convert_row_error)

lemma load_rows_ok:
  "load_rows conv N rows = Inr X \<Longrightarrow>
     list_all (\<lambda>vals. length vals = N \<and> list_all (\<lambda>v. conv v \<noteq> None) vals) rows"
  by (induction rows arbitrary: X)
     (auto split: if_splits sum.splits dest: convert_row_ok)

lemma loadtxt_tolist_error: "loadtxt_tolist lib table = Inl e \<Longrightarrow> e = ValueError"
  by (auto simp: loadtxt_tolist_def simp del: load_rows.simps split: list.splits sum.splits
      dest: load_rows_error)

lemma loadtxt_tolist_ok:
  assumes "loadtxt_tolist lib table = Inr data" and "line \<in> set table"
  shows "list_all (\<lambda>v. np_float lib v \<noteq> None) (split_line line)"
    and "line' \<in> set table \<Longrightarrow> split_line line \<noteq> [] \<Longrightarrow> split_line line' \<noteq> [] \<Longrightarrow>
         length (split_line line) = length (split_line line')"
proof -
  let ?rows = "filter (\<lambda>vals. vals \<noteq> []) (map split_line table)"
  obtain N where all: "list_all (\<lambda>vals. length vals = N \<and> list_all (\<lambda>v. np_float lib v \<noteq> None) vals) ?rows"
  proof (cases ?rows)
    case Nil
    then show ?thesis using that by simp
  next
    case (Cons first_vals rest)
    with assms(1) obtain X where "load_rows (np_float lib) (length first_vals) ?rows = Inr X"
      by (auto simp: loadtxt_tolist_def split: sum.splits)
    from load_rows_ok [OF this] show ?thesis using that by blast
  qed
  have row: "length (split_line l) = N \<and> list_all (\<lambda>v. np_float lib v \<noteq> None) (split_line l)"
    if "l \<in> set table" "split_line l \<noteq> []" for l
    using all that by (auto simp: list_all_iff)
  show "list_all (\<lambda>v. np_float lib v \<noteq> None) (split_line line)"
    using row [OF assms(2)] by (cases "split_line line = []") auto
  show "length (split_line line) = length (split_line line')"
    if "line' \<in> set table" "split_line line \<noteq> []" "split_line line' \<noteq> []"
    using row [OF assms(2) that(2)] row [OF that(1) that(3)] by simp
qed

subsection \<open>Facts about the parsing loop\<close>

lemma parse_loop_acc:
  "parse_loop lib processes fp =
     (case parse_loop lib [] fp of Inl e \<Rightarrow> Inl e | Inr new \<Rightarrow> Inr (processes @ new))"
proof (induction "length fp" arbitrary: fp processes rule: less_induct)
  case less
  show ?case
  proof (cases fp)
    case Nil
    then show ?thesis by simp
  next
    case (Cons line rest)
    show ?thesis
    proof (cases "KEYWORDS (strip line)")
      case None
      with Cons less [of rest processes] show ?thesis by simp
    next
      case (Some fread)
      show ?thesis
      proof (cases "fread lib rest")
        case (Inl e)
        with Some Cons show ?thesis by simp
      next
        case (Inr r)
        obtain d fp' where r: "r = (d, fp')" by (cases r)
        let ?p = "d(''kind'' \<mapsto> Str (strip line))"
        have shorter: "length fp' < length fp"
          using KEYWORDS_length [OF Some Inr [unfolded r]] Cons by simp
        have a: "parse_loop lib (processes @ [?p]) fp' =
            (case parse_loop lib [] fp' of Inl e \<Rightarrow> Inl e
             | Inr new \<Rightarrow> Inr ((processes @ [?p]) @ new))"
          by (rule less [OF shorter])
        have b: "parse_loop lib [?p] fp' =
            (case parse_loop lib [] fp' of Inl e \<Rightarrow> Inl e | Inr new \<Rightarrow> Inr ([?p] @ new))"
          by (rule less [OF shorter])
        show ?thesis
          using Some Inr r Cons a b by (simp split: sum.splits)
      qed
    qed
  qed
qed

lemma parse_skip:
  "KEYWORDS (strip line) = None \<Longrightarrow> parse lib (line # fp) = parse lib fp"
  by (simp add: parse_def)

lemma parse_skip_many:
  "list_all (\<lambda>l. KEYWORDS (strip l) = None) pre \<Longrightarrow> parse_loop lib processes (pre @ fp) = parse_loop lib processes fp"
  by (induction pre) auto

lemma parse_step:
  assumes "KEYWORDS (strip line) = Some fread" and "fread lib fp = Inr (d, fp')"
  shows "parse lib (line # fp) =
     (case parse lib fp' of Inl e \<Rightarrow> Inl e
      | Inr rest \<Rightarrow> Inr (d(''kind'' \<mapsto> Str (strip line)) # rest))"
  using assms parse_loop_acc [of lib "[d(''kind'' \<mapsto> Str (strip line))]" fp']
  by (simp add: parse_def split: sum.splits)

lemma parse_loop_fail:
  assumes "KEYWORDS (strip line) = Some fread" and "fread lib fp = Inl e"
  shows "parse_loop lib processes (line # fp) = Inl e"
  using assms by simp

lemma parse_kinds:
  assumes "parse lib fp = Inr processes"
  shows "\<exists>keys. map (\<lambda>p. p ''kind'') processes = map (\<lambda>k. Some (Str k)) keys
            \<and> subseq keys (filter (\<lambda>k. KEYWORDS k \<noteq> None) (map strip fp))"
  using assms
proof (induction "length fp" arbitrary: fp processes rule: less_induct)
  case less
  show ?case
  proof (cases fp)
    case Nil
    with less.prems show ?thesis by (simp add: parse_def)
  next
    case (Cons line rest)
    show ?thesis
    proof (cases "KEYWORDS (strip line)")
      case None
      with Cons less.prems have "parse lib rest = Inr processes"
        by (simp add: parse_skip)
      from less.hyps [OF _ this] Cons None show ?thesis by simp
    next
      case (Some fread)
      show ?thesis
      proof (cases "fread lib rest")
        case (Inl e)
        with Some Cons less.prems show ?thesis by (simp add: parse_def)
      next
        case (Inr r)
        obtain d fp' where r: "r = (d, fp')" by (cases r)
        from less.prems Cons obtain tail where tail: "parse lib fp' = Inr tail"
          and ps: "processes = d(''kind'' \<mapsto> Str (strip line)) # tail"
          using parse_step [OF Some Inr [unfolded r]] by (auto split: sum.splits)
        have shorter: "length fp' < length fp"
          using KEYWORDS_length [OF Some Inr [unfolded r]] Cons by simp
        from less.hyps [OF shorter tail] obtain keys
          where keys: "map (\<lambda>p. p ''kind'') tail = map (\<lambda>k. Some (Str k)) keys"
            and sub: "subseq keys (filter (\<lambda>k. KEYWORDS k \<noteq> None) (map strip fp'))"
          by blast
        have "subseq fp' rest"
          using KEYWORDS_suffix [OF Some Inr [unfolded r]] by (rule suffix_imp_subseq)
        then have "subseq (filter (\<lambda>k. KEYWORDS k \<noteq> None) (map strip fp'))
            (filter (\<lambda>k. KEYWORDS k \<noteq> None) (map strip rest))"
          by (intro subseq_filter subseq_map)
        with sub have "subseq keys (filter (\<lambda>k. KEYWORDS k \<noteq> None) (map strip rest))"
          by (rule subseq_order.trans)
        then have "subseq (strip line # keys)
            (filter (\<lambda>k. KEYWORDS k \<noteq> None) (map strip fp))"
          using Some Cons by simp
        moreover have "map (\<lambda>p. p ''kind'') processes = map (\<lambda>k. Some (Str k)) (strip line # keys)"
          using ps keys by simp
        ultimately show ?thesis by blast
      qed
    qed
  qed
qed

subsection \<open>Facts about the block readers\<close>

lemma read_block_True:
  assumes "read_block lib fp True = Inr ((target, arg, data), fp')"
  obtains tline aline rest where "fp = tline # aline # rest" and "target = strip tline"
    and "arg = Some (strip aline)"
  using assms
  by (cases fp; cases "tl fp")
     (auto simp: read_block_def fp_next_def split: sum.splits prod.splits)

lemma read_block_False:
  assumes "read_block lib fp False = Inr ((target, arg, data), fp')"
  obtains tline rest where "fp = tline # rest" and "target = strip tline" and "arg = None"
    and "loadtxt_tolist lib (fst (read_until_sep (snd (read_until_sep rest)))) = Inr data"
    and "fp' = snd (read_until_sep (snd (read_until_sep rest)))"
  using assms
  by (cases fp) (auto simp: read_block_def fp_next_def split: sum.splits prod.splits)

lemma read_excitation_Inr:
  assumes "read_excitation lib fp = Inr (d, fp')"
  obtains target arg data lhs rhs where
    "read_block lib fp True = Inr ((target, arg, data), fp')"
    and "map strip (RE_ARROW_split target) = [lhs, rhs]"
    and "d ''target'' = Some (Str lhs)" and "d ''product'' = Some (Str rhs)"
    and "d ''data'' = Some data"
    and "\<exists>t. arg_float lib arg 0 = Inr t \<and> d ''threshold'' = Some (Float t)"
    and "if ''<->'' \<in> set (split target)
         then \<exists>w. arg_float lib arg 1 = Inr w \<and> d ''weight_ratio'' = Some (Float w)
         else d ''weight_ratio'' = None"
proof (cases "read_block lib fp True")
  case (Inl e)
  with assms show ?thesis by (simp add: read_excitation_def)
next
  case (Inr r)
  obtain target arg data fp1 where r: "r = ((target, arg, data), fp1)"
    by (cases r) auto
  from assms Inr r obtain lhs rhs where two: "map strip (RE_ARROW_split target) = [lhs, rhs]"
    by (auto simp: read_excitation_def split: list.splits)
  show ?thesis
  proof (cases "''<->'' \<in> set (split target)")
    case True
    with assms Inr r two show ?thesis
      by (intro that [of target arg data lhs rhs])
         (auto simp: read_excitation_def Let_def split: sum.splits)
  next
    case False
    with assms Inr r two show ?thesis
      by (intro that [of target arg data lhs rhs])
         (auto simp: read_excitation_def Let_def split: sum.splits)
  qed
qed

lemma arg_float_Some:
  assumes "arg_float lib (Some a) i = Inr x"
  shows "i < length (split a) \<and> py_float lib (split a ! i) = Some x"
  using assms
  by (auto simp: arg_float_def getitem_def to_float_def split: if_splits option.splits)

lemma read_excitation_count:
  assumes "read_excitation lib (tline # fp) = Inr (d, fp')"
  shows "RE_ARROW_count (strip tline) = 1"
proof -
  from assms obtain target arg data lhs rhs where
    blk: "read_block lib (tline # fp) True = Inr ((target, arg, data), fp')"
    and two: "map strip (RE_ARROW_split target) = [lhs, rhs]"
    by (rule read_excitation_Inr)
  from blk have "target = strip tline"
    by (auto elim: read_block_True)
  moreover from two have "length (RE_ARROW_split target) = 2"
    using length_map [of strip "RE_ARROW_split target"] by simp
  ultimately show ?thesis
    by (simp add: RE_ARROW_split_length)
qed

lemma read_excitation_bad_arrow:
  assumes "read_block lib (tline # fp) True = Inr (blk, fp')"
    and "RE_ARROW_count (strip tline) \<noteq> 1"
  shows "read_excitation lib (tline # fp) = Inl ValueError"
proof -
  obtain target arg data where blk: "blk = (target, arg, data)"
    by (cases blk) auto
  with assms(1) have target: "target = strip tline"
    by (auto elim: read_block_True)
  have "length (map strip (RE_ARROW_split target)) \<noteq> 2"
    using assms(2) target by (simp add: RE_ARROW_split_length)
  then show ?thesis
    using assms(1) blk
    by (auto simp: read_excitation_def split: list.splits)
qed

lemma KEYWORDS_excitation:
  assumes "key = ''EXCITATION'' \<or> key = ''IONIZATION''"
  shows "KEYWORDS key = Some read_excitation"
  using assms by (auto simp: KEYWORDS_def)

lemma parse_loop_step:
  assumes "KEYWORDS (strip line) = Some fread" and "fread lib fp = Inr (d, fp')"
  shows "parse_loop lib processes (line # fp)
           = parse_loop lib (processes @ [d(''kind'' \<mapsto> Str (strip line))]) fp'"
  using assms by simp

lemma read_block_table_error:
  assumes "loadtxt_tolist lib (fst (read_until_sep (snd (read_until_sep body)))) = Inl e"
  shows "read_block lib (tline # aline # body) True = Inl e"
    and "read_block lib (tline # body) False = Inl e"
  using assms by (auto simp: read_block_def fp_next_def split: prod.splits)

lemma reader_block_error:
  "read_block lib fp True = Inl e \<Longrightarrow> read_momentum lib fp = Inl e"
  "read_block lib fp True = Inl e \<Longrightarrow> read_excitation lib fp = Inl e"
  "read_block lib fp False = Inl e \<Longrightarrow> read_attachment lib fp = Inl e"
  by (simp_all add: read_momentum_def read_excitation_def read_attachment_def)

lemma KEYWORDS_ATTACHMENT:
  assumes "KEYWORDS key = Some fread"
  shows "if key = ''ATTACHMENT'' then fread = read_attachment
         else fread = read_momentum \<or> fread = read_excitation"
  using assms by (auto simp: KEYWORDS_def split: if_splits)

lemma loadtxt_tolist_bad:
  assumes "line \<in> set table"
    and "\<not> list_all (\<lambda>tok. np_float lib tok \<noteq> None) (split_line line)
         \<or> (\<exists>other \<in> set table. split_line line \<noteq> [] \<and> split_line other \<noteq> []
               \<and> length (split_line line) \<noteq> length (split_line other))"
  shows "loadtxt_tolist lib table = Inl ValueError"
proof (cases "loadtxt_tolist lib table")
  case (Inl e)
  then show ?thesis by (simp add: loadtxt_tolist_error)
next
  case (Inr data)
  from loadtxt_tolist_ok [OF Inr assms(1)] assms(2) show ?thesis by blast
qed

lemma read_attachment_Inr:
  assumes "read_attachment lib (tline # fp) = Inr (d, fp')"
  shows "fp' = snd (read_until_sep (snd (read_until_sep fp)))"
    and "d ''threshold'' = Some (Float (Finite 0))"
    and "loadtxt_tolist lib (fst (read_until_sep (snd (read_until_sep fp)))) = Inr data
           \<Longrightarrow> d ''data'' = Some data"
    and "map strip (RE_ARROW_split (strip tline)) = [lhs, rhs]
           \<Longrightarrow> d ''target'' = Some (Str lhs) \<and> d ''product'' = Some (Str rhs)"
    and "length (RE_ARROW_split (strip tline)) \<noteq> 2
           \<Longrightarrow> d ''target'' = Some (Str (strip tline)) \<and> d ''product'' = None"
  using assms
  by (auto simp: read_attachment_def read_block_def fp_next_def Let_def
      split: sum.splits prod.splits if_splits)

subsection \<open>Facts about the serializer\<close>

lemma indent_upto_8:
  assumes "level \<le> 8"
  shows "getitem indent level = Inr (replicate level CHR '' '')"
proof -
  from assms have "level \<in> {0, 1, 2, 3, 4, 5, 6, 7, 8}"
    by auto
  then show ?thesis
    by (elim insertE emptyE) (simp_all add: getitem_def indent_def numeral_eq_Suc)
qed

lemma getitem_indent_less:
  assumes "level < 16"
  shows "getitem indent level = Inr (indent ! level)"
  using assms by (simp add: getitem_def indent_def)

lemma lstrip_hd:
  assumes "lstrip text \<noteq> []"
  shows "hd (lstrip text) \<noteq> CHR '' ''"
proof -
  from assms have "\<not> isspace (hd (lstrip text))"
    unfolding lstrip_def by (rule hd_dropWhile)
  then show ?thesis
    by (auto simp: isspace_def)
qed

lemma process_node_attachment_no_product:
  assumes "p ''kind'' = Some (Str ''ATTACHMENT'')" and "p ''target'' = Some target"
    and "p ''product'' = None"
  shows "process_node lib i p = Inl KeyError"
  using assms
  by (simp add: process_node_def lookup_def add_products_threshold_def Let_def)

subsection \<open>Facts about the separator\<close>

lemma RE_SEP_match_take: "RE_SEP_match s \<longleftrightarrow> take 5 s = ''-----''"
proof -
  have five: "take 5 s = take 4 s @ take 1 (drop 4 s)"
    using take_add [of 4 1 s] by simp
  show ?thesis
  proof (cases "drop 4 s")
    case Nil
    then have "length (take 5 s) \<le> 4"
      using five by simp
    then have "take 5 s \<noteq> ''-----''"
      by auto
    with Nil show ?thesis
      by (simp add: RE_SEP_match_def)
  next
    case (Cons c cs)
    then have "length s > 4"
      by (cases "length s > 4") auto
    then have len: "length (take 4 s) = length ''----''"
      by simp
    have "take 5 s = ''-----'' \<longleftrightarrow> take 4 s @ [c] = ''----'' @ [CHR ''-'']"
      using five Cons by simp
    also have "\<dots> \<longleftrightarrow> take 4 s = ''----'' \<and> c = CHR ''-''"
      using len by (simp only: append_eq_append_conv list.inject simp_thms)
    finally show ?thesis
      using Cons by (simp add: RE_SEP_match_def)
  qed
qed

text \<open>
  \<^verbatim>\<open>_read_until_sep\<close> stops at the first line whose stripped text begins with five
  dashes, consumes it, and returns the stripped lines before it.
\<close>

lemma read_until_sep_first_separator:
  assumes "list_all (\<lambda>l. take 5 (strip l) \<noteq> ''-----'') pre"
    and "take 5 (strip sep) = ''-----''"
  shows "read_until_sep (pre @ sep # rest) = (map strip pre, rest)"
  using assms by (intro read_until_sep_append) (simp_all add: RE_SEP_match_take)

text \<open>
  A keyword line met by the scan: its block goes to the reader that \<^verbatim>\<open>KEYWORDS\<close> gives
  for the keyword, and the record of the block precedes those of the rest of the stream.
\<close>

lemma KEYWORDS_dispatch:
  assumes "key \<in> set [''MOMENTUM'', ''ELASTIC'', ''EFFECTIVE'', ''EXCITATION'',
                        ''IONIZATION'', ''ATTACHMENT'']"
  shows "KEYWORDS key = Some (if key \<in> set [''MOMENTUM'', ''ELASTIC'', ''EFFECTIVE'']
                              then read_momentum
                              else if key \<in> set [''EXCITATION'', ''IONIZATION'']
                              then read_excitation
                              else read_attachment)"
  using assms by (auto simp: KEYWORDS_def)

lemma parse_header:
  assumes "strip line \<in> set [''MOMENTUM'', ''ELASTIC'', ''EFFECTIVE'', ''EXCITATION'',
                               ''IONIZATION'', ''ATTACHMENT'']"
  shows "parse lib (line # fp)
           = (case (if strip line \<in> set [''MOMENTUM'', ''ELASTIC'', ''EFFECTIVE'']
                    then read_momentum lib fp
                    else if strip line \<in> set [''EXCITATION'', ''IONIZATION'']
                    then read_excitation lib fp
                    else read_attachment lib fp) of
                Inl e \<Rightarrow> Inl e
              | Inr (d, fp') \<Rightarrow>
                  (case parse lib fp' of Inl e \<Rightarrow> Inl e
                   | Inr rest \<Rightarrow> Inr (d(''kind'' \<mapsto> Str (strip line)) # rest)))"
proof -
  let ?fread = "if strip line \<in> set [''MOMENTUM'', ''ELASTIC'', ''EFFECTIVE'']
                then read_momentum
                else if strip line \<in> set [''EXCITATION'', ''IONIZATION'']
                then read_excitation
                else read_attachment"
  have key: "KEYWORDS (strip line) = Some ?fread"
    using assms by (rule KEYWORDS_dispatch)
  have same: "(if strip line \<in> set [''MOMENTUM'', ''ELASTIC'', ''EFFECTIVE'']
                    then read_momentum lib fp
                    else if strip line \<in> set [''EXCITATION'', ''IONIZATION'']
                    then read_excitation lib fp
                    else read_attachment lib fp) = ?fread lib fp"
    by simp
  show ?thesis
  proof (cases "?fread lib fp")
    case (Inl e)
    have "parse lib (line # fp) = Inl e"
      unfolding parse_def using key Inl by (rule parse_loop_fail)
    with Inl show ?thesis
      unfolding same by simp
  next
    case (Inr r)
    obtain d fp' where r: "r = (d, fp')" by (cases r)
    from parse_step [OF key Inr [unfolded r]] Inr r show ?thesis
      unfolding same by simp
  qed
qed

text \<open>The table is read when every token converts and the lines agree on their number.\<close>

lemma convert_row_complete:
  "list_all (\<lambda>v. conv v \<noteq> None) vals \<Longrightarrow> \<exists>xs. convert_row conv vals = Inr xs"
  by (induction vals) auto

lemma load_rows_complete:
  assumes "list_all (\<lambda>vals. length vals = N \<and> list_all (\<lambda>v. conv v \<noteq> None) vals) rows"
  shows "\<exists>X. load_rows conv N rows = Inr X"
  using assms
proof (induction rows)
  case Nil
  show ?case by simp
next
  case (Cons vals rest)
  then obtain xs X where "convert_row conv vals = Inr xs" and "load_rows conv N rest = Inr X"
    using convert_row_complete [of conv vals] by auto
  with Cons.prems show ?case by simp
qed

lemma loadtxt_tolist_good:
  assumes "list_all (\<lambda>l. list_all (\<lambda>tok. np_float lib tok \<noteq> None) (split_line l)) table"
    and "list_all (\<lambda>l. list_all (\<lambda>other. split_line l = [] \<or> split_line other = []
           \<or> length (split_line l) = length (split_line other)) table) table"
  shows "\<exists>data. loadtxt_tolist lib table = Inr data"
proof (cases "filter (\<lambda>vals. vals \<noteq> []) (map split_line table)")
  case Nil
  then show ?thesis by (simp add: loadtxt_tolist_def)
next
  case (Cons first_vals rest)
  let ?rows = "filter (\<lambda>vals. vals \<noteq> []) (map split_line table)"
  have "first_vals \<in> set ?rows"
    using Cons by simp
  then obtain l0 where l0: "l0 \<in> set table" "split_line l0 = first_vals" "first_vals \<noteq> []"
    by auto
  have "length vals = length first_vals \<and> list_all (\<lambda>v. np_float lib v \<noteq> None) vals"
    if "vals \<in> set ?rows" for vals
  proof -
    from that obtain l where l: "l \<in> set table" "split_line l = vals" "vals \<noteq> []"
      by auto
    from assms(2) l(1) l0(1) have "split_line l = [] \<or> split_line l0 = []
        \<or> length (split_line l) = length (split_line l0)"
      by (auto simp: list_all_iff)
    with l l0 have "length vals = length first_vals"
      by simp
    moreover from assms(1) l have "list_all (\<lambda>v. np_float lib v \<noteq> None) vals"
      by (auto simp: list_all_iff)
    ultimately show ?thesis by simp
  qed
  then have "list_all (\<lambda>vals. length vals = length first_vals
      \<and> list_all (\<lambda>v. np_float lib v \<noteq> None) vals) ?rows"
    unfolding list_all_iff [of _ ?rows] by blast
  from load_rows_complete [OF this] obtain X
    where "load_rows (np_float lib) (length first_vals) ?rows = Inr X" ..
  with Cons show ?thesis
    by (simp add: loadtxt_tolist_def del: load_rows.simps)
qed

lemma read_block_table_ok:
  assumes "loadtxt_tolist lib (fst (read_until_sep (snd (read_until_sep body)))) = Inr data"
  shows "read_block lib (tline # aline # body) True
           = Inr ((strip tline, Some (strip aline), data),
                  snd (read_until_sep (snd (read_until_sep body))))"
    and "read_block lib (tline # body) False
           = Inr ((strip tline, None, data), snd (read_until_sep (snd (read_until_sep body))))"
  using assms by (auto simp: read_block_def fp_next_def split: prod.splits)

text \<open>
  Each writer only appends to the list it is given, and what it appends does not depend on
  that list.
\<close>

lemma write_value_loop_append:
  "\<forall>s. write_value_loop indnt vv s = s @ write_value_loop indnt vv []"
proof (rule write_value_loop.induct
    [of "\<lambda>indnt vv s0. \<forall>s. write_value_loop indnt vv s = s @ write_value_loop indnt vv []"
      indnt vv "[]"])
  fix indnt vv and s0 :: "string list"
  let ?vv' = "lstrip (drop 1 (dropWhile (\<lambda>c. c \<noteq> CHR 0x0A) vv))"
  let ?X = "[nl @ ''  '', indnt, takeWhile (\<lambda>c. c \<noteq> CHR 0x0A) vv]"
  assume step: "CHR 0x0A \<in> set vv \<Longrightarrow>
    \<forall>s. write_value_loop indnt ?vv' s = s @ write_value_loop indnt ?vv' []"
  show "\<forall>s. write_value_loop indnt vv s = s @ write_value_loop indnt vv []"
  proof (cases "CHR 0x0A \<in> set vv")
    case True
    from step [OF True]
    have IH: "write_value_loop indnt ?vv' s = s @ write_value_loop indnt ?vv' []" for s
      by blast
    have unfold: "write_value_loop indnt vv s = write_value_loop indnt ?vv' (s @ ?X)" for s
      using True by (simp add: write_value_loop.simps [of indnt vv s])
    show ?thesis
    proof
      fix s
      have "write_value_loop indnt vv s = (s @ ?X) @ write_value_loop indnt ?vv' []"
        unfolding unfold [of s] by (rule IH)
      also have "\<dots> = s @ (([] @ ?X) @ write_value_loop indnt ?vv' [])"
        by simp
      also have "([] @ ?X) @ write_value_loop indnt ?vv' [] = write_value_loop indnt vv []"
        unfolding unfold [of "[]"] by (rule IH [symmetric])
      finally show "write_value_loop indnt vv s = s @ write_value_loop indnt vv []" .
    qed
  next
    case False
    then show ?thesis
      by (simp add: write_value_loop.simps [of indnt vv])
  qed
qed

lemma write_value_uniform:
  "(\<exists>e. \<forall>s. write_value node s level = Inl e)
   \<or> (\<exists>t. \<forall>s. write_value node s level = Inr (s @ t))"
proof (cases "getitem indent level")
  case (Inl e)
  then show ?thesis by (simp add: write_value_def)
next
  case (Inr indnt)
  show ?thesis
  proof (cases "CHR 0x0A \<in> set (lstrip (node_value node))")
    case True
    then have "\<forall>s. write_value node s level
        = Inr (s @ write_value_loop indnt (lstrip (node_value node)) [])"
      using Inr write_value_loop_append [of indnt "lstrip (node_value node)"]
      by (simp add: write_value_def Let_def)
    then show ?thesis by blast
  next
    case False
    then have "\<forall>s. write_value node s level = Inr (s @ [node_value node])"
      using Inr by (simp add: write_value_def Let_def)
    then show ?thesis by blast
  qed
qed

lemma write_value_ok:
  assumes "getitem indent level = Inr indnt"
  shows "\<exists>vt. \<forall>s. write_value node s level = Inr (s @ vt)"
proof (cases "CHR 0x0A \<in> set (lstrip (node_value node))")
  case True
  then have "\<forall>s. write_value node s level
      = Inr (s @ write_value_loop indnt (lstrip (node_value node)) [])"
    using assms write_value_loop_append [of indnt "lstrip (node_value node)"]
    by (simp add: write_value_def Let_def)
  then show ?thesis by blast
next
  case False
  then have "\<forall>s. write_value node s level = Inr (s @ [node_value node])"
    using assms by (simp add: write_value_def Let_def)
  then show ?thesis by blast
qed

lemma write_comment_uniform:
  "(\<exists>e. \<forall>s. write_comment node s level = Inl e)
   \<or> (\<exists>t. \<forall>s. write_comment node s level = Inr (s @ t))"
proof (cases "getitem indent level")
  case (Inl e)
  then show ?thesis by (simp add: write_comment_def)
next
  case (Inr indnt)
  define v1 where "v1 = (if node_value node \<noteq> [] \<and> hd (node_value node) \<noteq> CHR '' ''
    then CHR '' '' # node_value node else node_value node)"
  define v2 where "v2 = (if node_value node \<noteq> [] \<and> last v1 \<noteq> CHR '' '' then v1 @ '' '' else v1)"
  have "\<forall>s. write_comment node s level = Inr (s @ [nl @ indnt @ ''<!--'', v2 @ ''-->''])"
    using Inr by (simp add: write_comment_def Let_def v1_def v2_def)
  then show ?thesis by blast
qed

lemma write_children_uniform_aux:
  assumes "\<And>c l. c \<in> set cs \<Longrightarrow>
      (\<exists>e. \<forall>s. write_node c s l = Inl e) \<or> (\<exists>t. \<forall>s. write_node c s l = Inr (s @ t))"
  shows "(\<exists>e. \<forall>s. write_children cs s level = Inl e)
       \<or> (\<exists>t. \<forall>s. write_children cs s level = Inr (s @ t))"
  using assms
proof (induction cs)
  case Nil
  have "\<forall>s. write_children [] s level = Inr (s @ [])"
    by simp
  then show ?case by blast
next
  case (Cons c cs)
  from Cons.prems [of c "level + 2"]
  consider e where "\<forall>s. write_node c s (level + 2) = Inl e"
    | t where "\<forall>s. write_node c s (level + 2) = Inr (s @ t)"
    by auto
  then show ?case
  proof cases
    case 1
    then have "\<forall>s. write_children (c # cs) s level = Inl e"
      by simp
    then show ?thesis by blast
  next
    case 2
    from Cons.IH Cons.prems
    consider e' where "\<forall>s. write_children cs s level = Inl e'"
      | t' where "\<forall>s. write_children cs s level = Inr (s @ t')"
      by auto
    then show ?thesis
    proof cases
      case 1
      with 2 have "\<forall>s. write_children (c # cs) s level = Inl e'"
        by simp
      then show ?thesis by blast
    next
      case prems: 2
      with 2 have "\<forall>s. write_children (c # cs) s level = Inr (s @ ([nl] @ t @ t'))"
        by simp
      then show ?thesis by blast
    qed
  qed
qed

lemma write_node_unfold:
  assumes "name \<noteq> ''_comment_''" and "getitem indent level = Inr indnt"
  shows "write_node (XMLnode name v attribs children) s level =
     (if v = [] \<and> children = []
      then Inr (s @ [indnt, ''<'', name]
                  @ map (\<lambda>(a, v). '' '' @ a @ ''='' @ dquote @ v @ dquote) attribs @ [''/>''])
      else (case (if v \<noteq> []
                  then write_value (XMLnode name v attribs children)
                         (s @ [indnt, ''<'', name]
                            @ map (\<lambda>(a, v). '' '' @ a @ ''='' @ dquote @ v @ dquote) attribs
                            @ [''>'']) level
                  else Inr (s @ [indnt, ''<'', name]
                              @ map (\<lambda>(a, v). '' '' @ a @ ''='' @ dquote @ v @ dquote) attribs
                              @ [''>''])) of
              Inl e \<Rightarrow> Inl e
            | Inr s2 \<Rightarrow>
                (case write_children children s2 level of Inl e \<Rightarrow> Inl e
                 | Inr s3 \<Rightarrow>
                     Inr ((if children \<noteq> [] then s3 @ [nl, indnt] else s3)
                          @ [''</'', name, ''>'']))))"
  using assms by (simp add: write_attribs_def Let_def)

lemma write_node_uniform:
  "(\<exists>e. \<forall>s. write_node n s level = Inl e) \<or> (\<exists>t. \<forall>s. write_node n s level = Inr (s @ t))"
proof (induction n arbitrary: level)
  case (XMLnode name v attribs children)
  let ?n = "XMLnode name v attribs children"
  let ?A = "map (\<lambda>(a, v). '' '' @ a @ ''='' @ dquote @ v @ dquote) attribs"
  have kids: "(\<exists>e. \<forall>s. write_children children s level = Inl e)
       \<or> (\<exists>t. \<forall>s. write_children children s level = Inr (s @ t))"
    by (rule write_children_uniform_aux) (rule XMLnode.IH)
  show ?case
  proof (cases "name = ''_comment_''")
    case True
    then show ?thesis
      using write_comment_uniform [of ?n level] by simp
  next
    case False
    show ?thesis
    proof (cases "getitem indent level")
      case (Inl e)
      with False have "\<forall>s. write_node ?n s level = Inl e"
        by simp
      then show ?thesis by blast
    next
      case (Inr indnt)
      note unfold = write_node_unfold [OF False Inr, of v attribs children]
      show ?thesis
      proof (cases "v = [] \<and> children = []")
        case True
        then have "\<forall>s. write_node ?n s level = Inr (s @ ([indnt, ''<'', name] @ ?A @ [''/>'']))"
          unfolding unfold by simp
        then show ?thesis by blast
      next
        case nonempty: False
        from write_value_ok [OF Inr, of ?n]
        obtain vt where vt: "\<And>s. write_value ?n s level = Inr (s @ vt)"
          by blast
        from kids show ?thesis
        proof
          assume "\<exists>e. \<forall>s. write_children children s level = Inl e"
          then obtain e where e: "\<And>s. write_children children s level = Inl e"
            by blast
          have "\<forall>s. write_node ?n s level = Inl e"
            unfolding unfold using nonempty by (simp add: vt e)
          then show ?thesis by blast
        next
          assume "\<exists>t. \<forall>s. write_children children s level = Inr (s @ t)"
          then obtain ct where ct: "\<And>s. write_children children s level = Inr (s @ ct)"
            by blast
          have "\<forall>s. write_node ?n s level
              = Inr (s @ ([indnt, ''<'', name] @ ?A @ [''>''] @ (if v = [] then [] else vt) @ ct
                   @ (if children \<noteq> [] then [nl, indnt] else []) @ [''</'', name, ''>'']))"
            unfolding unfold using nonempty by (simp add: vt ct)
          then show ?thesis by blast
        qed
      qed
    qed
  qed
qed

text \<open>
  The loop over the children writes, for each child in order, a newline and then the
  child at \<open>level + 2\<close>.
\<close>

lemma write_children_texts:
  assumes "write_children cs s level = Inr out"
  shows "\<exists>texts. list_all2 (\<lambda>c t. write_node c [] (level + 2) = Inr t) cs texts
            \<and> out = s @ concat (map (\<lambda>t. nl # t) texts)"
  using assms
proof (induction cs arbitrary: s out)
  case Nil
  then show ?case by simp
next
  case (Cons c cs)
  obtain t where t: "\<And>s. write_node c s (level + 2) = Inr (s @ t)"
  proof -
    from write_node_uniform [of c "level + 2"] show ?thesis
    proof
      assume "\<exists>e. \<forall>s. write_node c s (level + 2) = Inl e"
      then obtain e where "write_node c (s @ [nl]) (level + 2) = Inl e"
        by blast
      with Cons.prems have False
        by simp
      then show ?thesis ..
    next
      assume "\<exists>t. \<forall>s. write_node c s (level + 2) = Inr (s @ t)"
      then show ?thesis
        using that by blast
    qed
  qed
  from Cons.prems t [of "s @ [nl]"]
  have "write_children cs ((s @ [nl]) @ t) level = Inr out"
    by simp
  from Cons.IH [OF this] obtain texts
    where texts: "list_all2 (\<lambda>c t. write_node c [] (level + 2) = Inr t) cs texts"
      and out: "out = ((s @ [nl]) @ t) @ concat (map (\<lambda>t. nl # t) texts)"
    by blast
  from t [of "[]"] have "write_node c [] (level + 2) = Inr t"
    by simp
  with texts out
  have "list_all2 (\<lambda>c t. write_node c [] (level + 2) = Inr t) (c # cs) (t # texts)
      \<and> out = s @ concat (map (\<lambda>t. nl # t) (t # texts))"
    by simp
  then show ?case by blast
qed

text \<open>How the text of a node begins.\<close>

lemma write_node_begins:
  assumes "write_node c [] level = Inr t" and "getitem indent level = Inr indnt"
  shows "if node_name c = ''_comment_'' then \<exists>tail. t = (nl @ indnt @ ''<!--'') # tail
         else \<exists>tail. t = [indnt, ''<'', node_name c] @ tail"
proof (cases c)
  case (XMLnode name v attribs children)
  let ?n = "XMLnode name v attribs children"
  let ?A = "map (\<lambda>(a, v). '' '' @ a @ ''='' @ dquote @ v @ dquote) attribs"
  show ?thesis
  proof (cases "name = ''_comment_''")
    case True
    with assms XMLnode
    have "t = [nl @ indnt @ ''<!--'',
        (if v \<noteq> [] \<and> last (if v \<noteq> [] \<and> hd v \<noteq> CHR '' '' then CHR '' '' # v else v)
              \<noteq> CHR '' ''
         then (if v \<noteq> [] \<and> hd v \<noteq> CHR '' '' then CHR '' '' # v else v) @ '' ''
         else (if v \<noteq> [] \<and> hd v \<noteq> CHR '' '' then CHR '' '' # v else v)) @ ''-->'']"
      by (simp add: write_comment_def Let_def)
    then have "\<exists>tail. t = (nl @ indnt @ ''<!--'') # tail"
      by blast
    with XMLnode True show ?thesis
      by simp
  next
    case False
    note unfold = write_node_unfold [OF False assms(2), of v attribs children "[]"]
    show ?thesis
    proof (cases "v = [] \<and> children = []")
      case True
      with assms(1) have "t = [indnt, ''<'', name] @ ?A @ [''/>'']"
        unfolding XMLnode unfold by simp
      with XMLnode False show ?thesis
        by simp
    next
      case nonempty: False
      from write_value_ok [OF assms(2), of ?n]
      obtain vt where vt: "\<And>s. write_value ?n s level = Inr (s @ vt)"
        by blast
      let ?s2 = "[indnt, ''<'', name] @ ?A @ [''>''] @ (if v = [] then [] else vt)"
      from assms(1) nonempty
      have "(case write_children children ?s2 level of Inl e \<Rightarrow> Inl e
             | Inr s3 \<Rightarrow> Inr ((if children \<noteq> [] then s3 @ [nl, indnt] else s3)
                              @ [''</'', name, ''>''])) = Inr t"
        unfolding XMLnode unfold by (simp add: vt split: if_splits)
      then obtain s3 where s3: "write_children children ?s2 level = Inr s3"
        and t: "t = (if children \<noteq> [] then s3 @ [nl, indnt] else s3) @ [''</'', name, ''>'']"
        by (cases "write_children children ?s2 level") auto
      from write_children_texts [OF s3] obtain rest where "s3 = ?s2 @ rest"
        by blast
      with t have "\<exists>tail. t = [indnt, ''<'', name] @ tail"
        by simp
      with XMLnode False show ?thesis
        by simp
    qed
  qed
qed

section \<open>Worked examples and claims\<close>

lemmas eval_strings = strip_def lstrip_def rstrip_def isspace_def split_def nl_def

lemmas eval_parser =
  parse_def KEYWORDS_def read_momentum_def read_excitation_def read_attachment_def
  read_block_def fp_next_def eval_strings RE_SEP_match_def RE_ARROW_split_def
  loadtxt_tolist_def split_line_def arg_float_def getitem_def to_float_def Let_def
  demo_lib_def demo_float_def

subsection \<open>C7: the separator test\<close>

text \<open>
  C7 at a data block that holds the line \<^verbatim>\<open>-----x\<close>. Its trimmed content is not made of
  dashes alone, so by the claim it is no separator. The code tests the trimmed line with
  \<^verbatim>\<open>RE_SEP.match\<close>, which looks at the start of the line only: the line passes,
  \<^verbatim>\<open>_read_until_sep\<close> ends the block there, and the parse returns a record whose table
  lacks the row behind that line.
\<close>

theorem C7_dashes_followed_by_text_end_block:
  "strip (''-----x'' @ nl) = ''-----x''
   \<and> ''-----x'' \<noteq> replicate (length ''-----x'') CHR ''-''
   \<and> RE_SEP_match (strip (''-----x'' @ nl))
   \<and> read_until_sep [''0.0 1.0'', ''1.0 0.5'', ''-----x'' @ nl, ''2.0 0.5'', ''-----'']
       = ([''0.0 1.0'', ''1.0 0.5''], [''2.0 0.5'', ''-----''])
   \<and> (\<exists>p. parse demo_lib
         [''MOMENTUM'', ''N2'', ''0.5'', ''-----'', ''0.0 1.0'', ''1.0 0.5'', ''-----x'' @ nl,
          ''2.0 0.5'', ''-----'']
        = Inr [p]
        \<and> p ''data'' = Some (List [List [Float (Finite 0), Float (Finite 1)],
                                    List [Float (Finite 1), Float (Finite (1 / 2))]]))"
  by (simp add: eval_parser)

subsection \<open>C10: exactly one arrow in an EXCITATION or IONIZATION target line\<close>

text \<open>
  C10. When the scan meets an EXCITATION or IONIZATION header, with whatever records
  collected so far, the parse returns only if the target line holds exactly one match of
  the arrow pattern. With none or with several the parse ends in an exception, and when
  the block itself can be read that exception is the ValueError of the assignment
  \<^verbatim>\<open>lhs, rhs = ...\<close>.
\<close>

theorem C10_exactly_one_arrow:
  assumes "strip hdr = ''EXCITATION'' \<or> strip hdr = ''IONIZATION''"
  shows "(parse_loop lib processes (hdr # tline # fp) = Inr result
            \<longrightarrow> RE_ARROW_count (strip tline) = 1)
       \<and> (RE_ARROW_count (strip tline) \<noteq> 1
            \<longrightarrow> (\<exists>e. parse_loop lib processes (hdr # tline # fp) = Inl e))
       \<and> (RE_ARROW_count (strip tline) \<noteq> 1
            \<and> read_block lib (tline # fp) True = Inr (blk, fp')
            \<longrightarrow> parse_loop lib processes (hdr # tline # fp) = Inl ValueError)"
proof -
  note key = KEYWORDS_excitation [OF assms]
  have ok: "RE_ARROW_count (strip tline) = 1"
    if "parse_loop lib processes (hdr # tline # fp) = Inr result" for result
  proof (cases "read_excitation lib (tline # fp)")
    case (Inl e)
    with that key show ?thesis by simp
  next
    case (Inr r)
    then show ?thesis
      using read_excitation_count [of lib tline fp "fst r" "snd r"] by simp
  qed
  have bad: "parse_loop lib processes (hdr # tline # fp) = Inl ValueError"
    if "RE_ARROW_count (strip tline) \<noteq> 1" "read_block lib (tline # fp) True = Inr (blk, fp')"
    using read_excitation_bad_arrow [OF that(2) that(1)] key by simp
  have "\<exists>e. parse_loop lib processes (hdr # tline # fp) = Inl e"
    if "RE_ARROW_count (strip tline) \<noteq> 1"
    using ok that by (cases "parse_loop lib processes (hdr # tline # fp)") auto
  with ok bad show ?thesis by blast
qed

theorem C10_exactly_one_arrow_witness:
  "parse demo_lib [''EXCITATION'', ''N2 N2(rot)'', ''0.25'', ''-----'', ''0.0 1.0'', ''1.0 0.5'', ''-----'']
     = Inl ValueError
   \<and> parse demo_lib [''IONIZATION'', ''A -> B -> C'', ''0.25'', ''-----'', ''0.0 1.0'', ''1.0 0.5'', ''-----'']
     = Inl ValueError
   \<and> RE_ARROW_count (strip ''N2 -> N2(rot)'') = 1
   \<and> (\<exists>p. parse demo_lib [''EXCITATION'', ''N2 -> N2(rot)'', ''0.25'', ''-----'', ''0.0 1.0'', ''1.0 0.5'', ''-----'']
     = Inr [p])"
proof -
  have a: "strip ''EXCITATION'' = ''EXCITATION'' \<or> strip ''EXCITATION'' = ''IONIZATION''"
    by (simp add: eval_strings)
  have b: "strip ''IONIZATION'' = ''EXCITATION'' \<or> strip ''IONIZATION'' = ''IONIZATION''"
    by (simp add: eval_strings)
  have r1: "read_block demo_lib [''N2 N2(rot)'', ''0.25'', ''-----'', ''0.0 1.0'', ''1.0 0.5'', ''-----''] True
      = Inr ((''N2 N2(rot)'', Some ''0.25'', List [List [Float (Finite 0), Float (Finite 1)], List [Float (Finite 1), Float (Finite (1/2))]]), [])"
    by (simp add: eval_parser)
  have r2: "read_block demo_lib [''A -> B -> C'', ''0.25'', ''-----'', ''0.0 1.0'', ''1.0 0.5'', ''-----''] True
      = Inr ((''A -> B -> C'', Some ''0.25'', List [List [Float (Finite 0), Float (Finite 1)], List [Float (Finite 1), Float (Finite (1/2))]]), [])"
    by (simp add: eval_parser)
  have c1: "RE_ARROW_count (strip ''N2 N2(rot)'') \<noteq> 1"
    by (simp add: eval_strings)
  have c2: "RE_ARROW_count (strip ''A -> B -> C'') \<noteq> 1"
    by (simp add: eval_strings)
  have ok: "\<exists>p. parse demo_lib [''EXCITATION'', ''N2 -> N2(rot)'', ''0.25'', ''-----'', ''0.0 1.0'', ''1.0 0.5'', ''-----'']
     = Inr [p]"
    by (simp add: eval_parser)
  then obtain p where p: "parse_loop demo_lib [] [''EXCITATION'', ''N2 -> N2(rot)'', ''0.25'', ''-----'', ''0.0 1.0'', ''1.0 0.5'', ''-----''] = Inr [p]"
    by (auto simp: parse_def)
  show ?thesis
    using C10_exactly_one_arrow [OF a, of demo_lib "[]" "''N2 N2(rot)''" _ "[p]"]
      C10_exactly_one_arrow [OF b, of demo_lib "[]" "''A -> B -> C''"]
      C10_exactly_one_arrow [OF a, of demo_lib "[]" "''N2 -> N2(rot)''" _ "[p]"]
      r1 r2 c1 c2 ok p
    unfolding parse_def by blast
qed

subsection \<open>C2: the reversible marker and the weight ratio\<close>

text \<open>
  C2. Take an EXCITATION or IONIZATION header met by the scan and a block behind it that
  \<^verbatim>\<open>_read_excitation\<close> reads into the dictionary \<open>d\<close>. The loop appends \<open>d\<close> with its
  \<open>kind\<close> and goes on behind the block. That record has a \<open>weight_ratio\<close> key exactly when
  \<^verbatim>\<open><->\<close> is one of the whitespace-separated tokens of the target line. Its \<open>threshold\<close>
  is the float of the first token of the argument line, and with the marker its
  \<open>weight_ratio\<close> is the float of the second token.
\<close>

theorem C2_weight_ratio_iff_two_way_token:
  assumes "strip hdr = ''EXCITATION'' \<or> strip hdr = ''IONIZATION''"
    and "read_excitation lib (tline # aline # fp) = Inr (d, fp')"
  shows "parse_loop lib processes (hdr # tline # aline # fp)
           = parse_loop lib (processes @ [d(''kind'' \<mapsto> Str (strip hdr))]) fp'
       \<and> ((d(''kind'' \<mapsto> Str (strip hdr))) ''weight_ratio'' \<noteq> None
            \<longleftrightarrow> ''<->'' \<in> set (split tline))
       \<and> (\<exists>t. 0 < length (split aline) \<and> py_float lib (split aline ! 0) = Some t
            \<and> (d(''kind'' \<mapsto> Str (strip hdr))) ''threshold'' = Some (Float t))
       \<and> (''<->'' \<in> set (split tline) \<longrightarrow>
            (\<exists>w. 1 < length (split aline) \<and> py_float lib (split aline ! 1) = Some w
              \<and> (d(''kind'' \<mapsto> Str (strip hdr))) ''weight_ratio'' = Some (Float w)))"
proof -
  from assms(2) obtain target arg data lhs rhs where
    blk: "read_block lib (tline # aline # fp) True = Inr ((target, arg, data), fp')"
    and "map strip (RE_ARROW_split target) = [lhs, rhs]"
    and "d ''target'' = Some (Str lhs)" and "d ''product'' = Some (Str rhs)"
    and "d ''data'' = Some data"
    and thr: "\<exists>t. arg_float lib arg 0 = Inr t \<and> d ''threshold'' = Some (Float t)"
    and rev: "if ''<->'' \<in> set (split target)
         then \<exists>w. arg_float lib arg 1 = Inr w \<and> d ''weight_ratio'' = Some (Float w)
         else d ''weight_ratio'' = None"
    by (rule read_excitation_Inr)
  from blk have target: "target = strip tline" and arg: "arg = Some (strip aline)"
    by (auto elim: read_block_True)
  have tokens: "split target = split tline" and args: "split (strip aline) = split aline"
    by (simp_all add: target split_strip)
  have step: "parse_loop lib processes (hdr # tline # aline # fp)
           = parse_loop lib (processes @ [d(''kind'' \<mapsto> Str (strip hdr))]) fp'"
    using KEYWORDS_excitation [OF assms(1)] assms(2) by (rule parse_loop_step)
  have iff: "d ''weight_ratio'' \<noteq> None \<longleftrightarrow> ''<->'' \<in> set (split tline)"
    using rev tokens by (cases "''<->'' \<in> set (split tline)") auto
  have first: "\<exists>t. 0 < length (split aline) \<and> py_float lib (split aline ! 0) = Some t
      \<and> d ''threshold'' = Some (Float t)"
    using thr arg_float_Some [of lib "strip aline" 0] arg args by auto
  have second: "\<exists>w. 1 < length (split aline) \<and> py_float lib (split aline ! 1) = Some w
      \<and> d ''weight_ratio'' = Some (Float w)" if "''<->'' \<in> set (split tline)"
    using rev that tokens arg_float_Some [of lib "strip aline" 1] arg args by auto
  show ?thesis
    using step iff first second by simp
qed

theorem C2_weight_ratio_iff_two_way_token_witness:
  "\<exists>d. read_excitation demo_lib
          [''N2 <-> N2(v1)'' @ nl, ''0.25 2.0'' @ nl, ''-----'', ''0.0 1.0'', ''1.0 0.5'', ''-----'']
        = Inr (d, [])
     \<and> ''<->'' \<in> set (split (''N2 <-> N2(v1)'' @ nl))
     \<and> d ''weight_ratio'' = Some (Float (Finite 2))
     \<and> d ''threshold'' = Some (Float (Finite (1 / 4)))
     \<and> parse_loop demo_lib []
          [''EXCITATION'' @ nl, ''N2 <-> N2(v1)'' @ nl, ''0.25 2.0'' @ nl, ''-----'', ''0.0 1.0'',
           ''1.0 0.5'', ''-----'']
        = Inr [d(''kind'' \<mapsto> Str ''EXCITATION'')]"
proof -
  have hdr: "strip (''EXCITATION'' @ nl) = ''EXCITATION'' \<or> strip (''EXCITATION'' @ nl) = ''IONIZATION''"
    by (simp add: eval_strings)
  obtain d where d: "read_excitation demo_lib
          [''N2 <-> N2(v1)'' @ nl, ''0.25 2.0'' @ nl, ''-----'', ''0.0 1.0'', ''1.0 0.5'', ''-----'']
        = Inr (d, [])"
    and w: "d ''weight_ratio'' = Some (Float (Finite 2))"
    and t: "d ''threshold'' = Some (Float (Finite (1 / 4)))"
    by (simp add: eval_parser)
  have s: "strip (''EXCITATION'' @ nl) = ''EXCITATION''"
    by (simp add: eval_strings)
  show ?thesis
    using C2_weight_ratio_iff_two_way_token [OF hdr d, of "[]"] d w t s
    by (intro exI [of _ d]) auto
qed

subsection \<open>C3: the arrow of an EXCITATION or IONIZATION target line\<close>

text \<open>
  C3, as the code has it. The arrow is \<^verbatim>\<open>->\<close> or \<^verbatim>\<open><->\<close>. A trimmed target line made
  of a left side, one such arrow and a right side, where neither side contains \<^verbatim>\<open>->\<close>
  and the left side does not end in \<^verbatim>\<open><\<close>, is split into these two sides, and a block
  that is read has the trimmed left side as \<open>target\<close> and the trimmed right side as
  \<open>product\<close>.
\<close>

theorem C3_split_on_forward_or_two_way_arrow:
  assumes "arrow = ''->'' \<or> arrow = ''<->''"
    and "\<not> str_contains l ''->''" and "\<not> str_contains r ''->''"
    and "l = [] \<or> last l \<noteq> CHR ''<''"
    and "strip tline = l @ arrow @ r"
  shows "RE_ARROW_split (strip tline) = [l, r]
       \<and> (read_excitation lib (tline # fp) = Inr (d, fp')
            \<longrightarrow> d ''target'' = Some (Str (strip l)) \<and> d ''product'' = Some (Str (strip r)))"
proof -
  have parts: "RE_ARROW_split (strip tline) = [l, r]"
    using RE_ARROW_split_aux_one [OF assms(1-4), of "[]"] assms(5)
    by (simp add: RE_ARROW_split_def)
  have "d ''target'' = Some (Str (strip l)) \<and> d ''product'' = Some (Str (strip r))"
    if "read_excitation lib (tline # fp) = Inr (d, fp')"
  proof -
    from that obtain target arg data lhs rhs where
      blk: "read_block lib (tline # fp) True = Inr ((target, arg, data), fp')"
      and two: "map strip (RE_ARROW_split target) = [lhs, rhs]"
      and d: "d ''target'' = Some (Str lhs)" "d ''product'' = Some (Str rhs)"
      by (rule read_excitation_Inr)
    from blk have "target = strip tline"
      by (auto elim: read_block_True)
    with two parts have "lhs = strip l" "rhs = strip r"
      by simp_all
    with d show ?thesis by simp
  qed
  with parts show ?thesis by simp
qed

theorem C3_split_on_forward_or_two_way_arrow_witness:
  "\<exists>d. read_excitation demo_lib
          [''  N2 -> N2(rot)'' @ nl, ''0.25'', ''-----'', ''0.0 1.0'', ''1.0 0.5'', ''-----'']
        = Inr (d, [])
     \<and> RE_ARROW_split (strip (''  N2 -> N2(rot)'' @ nl)) = [''N2 '', '' N2(rot)'']
     \<and> d ''target'' = Some (Str ''N2'') \<and> d ''product'' = Some (Str ''N2(rot)'')"
proof -
  have a: "''->'' = ''->'' \<or> ''->'' = ''<->''"
    by simp
  have l: "\<not> str_contains ''N2 '' ''->''" and r: "\<not> str_contains '' N2(rot)'' ''->''"
    by simp_all
  have e: "''N2 '' = [] \<or> last ''N2 '' \<noteq> CHR ''<''"
    by simp
  have s: "strip (''  N2 -> N2(rot)'' @ nl) = ''N2 '' @ ''->'' @ '' N2(rot)''"
    by (simp add: eval_strings)
  obtain d where d: "read_excitation demo_lib
          [''  N2 -> N2(rot)'' @ nl, ''0.25'', ''-----'', ''0.0 1.0'', ''1.0 0.5'', ''-----'']
        = Inr (d, [])"
    by (simp add: eval_parser)
  have "strip ''N2 '' = ''N2''" "strip '' N2(rot)'' = ''N2(rot)''"
    by (simp_all add: eval_strings)
  then show ?thesis
    using C3_split_on_forward_or_two_way_arrow [OF a l r e s, of demo_lib _ d "[]"] d
    by (intro exI [of _ d]) simp
qed

text \<open>
  C3 as claimed fails: the bare \<^verbatim>\<open><-\<close> is no match of \<^verbatim>\<open><?->\<close>. The target line
  \<^verbatim>\<open>A <- B\<close> is not split, and its block ends the parse with ValueError.
\<close>

theorem C3_counterexample:
  "RE_ARROW_split (strip ''A <- B'') = [''A <- B'']
   \<and> read_excitation demo_lib [''A <- B'', ''0.25'', ''-----'', ''0.0 1.0'', ''1.0 0.5'', ''-----'']
       = Inl ValueError
   \<and> parse demo_lib
        [''EXCITATION'', ''A <- B'', ''0.25'', ''-----'', ''0.0 1.0'', ''1.0 0.5'', ''-----'']
       = Inl ValueError"
  by (simp add: eval_parser)

subsection \<open>C1: one record for each header, in stream order\<close>

text \<open>
  C1. When \<^verbatim>\<open>parse\<close> returns, the kinds of its records are, in order, a subsequence of
  the stripped lines of the stream that are keywords. A line whose stripped text is none
  of the six keywords, met by the scan, is passed over: the result is that of the rest of
  the stream, and a stream without any keyword line gives the empty list and no error. A
  line whose stripped text is one of the six keywords, met by the scan, is recognized:
  its block goes to the reader of the keyword, \<^verbatim>\<open>_read_momentum\<close> for MOMENTUM, ELASTIC
  and EFFECTIVE, \<^verbatim>\<open>_read_excitation\<close> for EXCITATION and IONIZATION,
  \<^verbatim>\<open>_read_attachment\<close> for ATTACHMENT. An exception of the reader ends the parse;
  otherwise the line gives exactly one record, the dictionary of the block tagged with the
  keyword as its kind, ahead of the records of the lines behind the block. The keywords
  are matched exactly, so \<^verbatim>\<open>momentum\<close> is not one.
\<close>

theorem C1_records_in_header_order:
  "(parse lib fp = Inr processes \<longrightarrow>
      (\<exists>keys. map (\<lambda>p. p ''kind'') processes = map (\<lambda>k. Some (Str k)) keys
         \<and> subseq keys
              (filter (\<lambda>k. k \<in> set [''MOMENTUM'', ''ELASTIC'', ''EFFECTIVE'', ''EXCITATION'',
                                      ''IONIZATION'', ''ATTACHMENT''])
                 (map strip fp))))
   \<and> (strip line \<notin> set [''MOMENTUM'', ''ELASTIC'', ''EFFECTIVE'', ''EXCITATION'',
                          ''IONIZATION'', ''ATTACHMENT'']
        \<longrightarrow> parse lib (line # fp) = parse lib fp)
   \<and> (list_all (\<lambda>l. strip l \<notin> set [''MOMENTUM'', ''ELASTIC'', ''EFFECTIVE'', ''EXCITATION'',
                                      ''IONIZATION'', ''ATTACHMENT'']) fp
        \<longrightarrow> parse lib fp = Inr [])
   \<and> (strip line \<in> set [''MOMENTUM'', ''ELASTIC'', ''EFFECTIVE'', ''EXCITATION'',
                          ''IONIZATION'', ''ATTACHMENT'']
        \<longrightarrow> parse lib (line # fp)
             = (case (if strip line \<in> set [''MOMENTUM'', ''ELASTIC'', ''EFFECTIVE'']
                      then read_momentum lib fp
                      else if strip line \<in> set [''EXCITATION'', ''IONIZATION'']
                      then read_excitation lib fp
                      else read_attachment lib fp) of
                  Inl e \<Rightarrow> Inl e
                | Inr (d, fp') \<Rightarrow>
                    (case parse lib fp' of Inl e \<Rightarrow> Inl e
                     | Inr rest \<Rightarrow> Inr (d(''kind'' \<mapsto> Str (strip line)) # rest))))
   \<and> (KEYWORDS (strip line) = Some fread \<and> fread lib fp = Inr (d, fp')
        \<longrightarrow> parse lib (line # fp)
             = (case parse lib fp' of Inl e \<Rightarrow> Inl e
                | Inr rest \<Rightarrow> Inr (d(''kind'' \<mapsto> Str (strip line)) # rest)))
   \<and> KEYWORDS ''momentum'' = None"
proof -
  have dom: "(k \<in> set [''MOMENTUM'', ''ELASTIC'', ''EFFECTIVE'', ''EXCITATION'',
                        ''IONIZATION'', ''ATTACHMENT'']) = (KEYWORDS k \<noteq> None)" for k
    using KEYWORDS_dom [of k] by simp
  have order: "\<exists>keys. map (\<lambda>p. p ''kind'') processes = map (\<lambda>k. Some (Str k)) keys
         \<and> subseq keys (filter (\<lambda>k. KEYWORDS k \<noteq> None) (map strip fp))"
    if "parse lib fp = Inr processes"
    using that by (rule parse_kinds)
  have skip: "parse lib (line # fp) = parse lib fp" if "KEYWORDS (strip line) = None"
    using that by (rule parse_skip)
  have none: "parse lib fp = Inr []" if "list_all (\<lambda>l. KEYWORDS (strip l) = None) fp"
    using parse_skip_many [OF that, of lib "[]" "[]"] by (simp add: parse_def)
  have step: "parse lib (line # fp)
             = (case parse lib fp' of Inl e \<Rightarrow> Inl e
                | Inr rest \<Rightarrow> Inr (d(''kind'' \<mapsto> Str (strip line)) # rest))"
    if "KEYWORDS (strip line) = Some fread" "fread lib fp = Inr (d, fp')"
    using that by (rule parse_step)
  have lower: "KEYWORDS ''momentum'' = None"
    by (simp add: KEYWORDS_def)
  have header: "parse lib (line # fp)
             = (case (if strip line \<in> set [''MOMENTUM'', ''ELASTIC'', ''EFFECTIVE'']
                      then read_momentum lib fp
                      else if strip line \<in> set [''EXCITATION'', ''IONIZATION'']
                      then read_excitation lib fp
                      else read_attachment lib fp) of
                  Inl e \<Rightarrow> Inl e
                | Inr (d, fp') \<Rightarrow>
                    (case parse lib fp' of Inl e \<Rightarrow> Inl e
                     | Inr rest \<Rightarrow> Inr (d(''kind'' \<mapsto> Str (strip line)) # rest)))"
    if "strip line \<in> set [''MOMENTUM'', ''ELASTIC'', ''EFFECTIVE'', ''EXCITATION'',
                          ''IONIZATION'', ''ATTACHMENT'']"
    using that by (rule parse_header)
  have rest: "(parse lib fp = Inr processes \<longrightarrow>
      (\<exists>keys. map (\<lambda>p. p ''kind'') processes = map (\<lambda>k. Some (Str k)) keys
         \<and> subseq keys
              (filter (\<lambda>k. k \<in> set [''MOMENTUM'', ''ELASTIC'', ''EFFECTIVE'', ''EXCITATION'',
                                      ''IONIZATION'', ''ATTACHMENT''])
                 (map strip fp))))
   \<and> (strip line \<notin> set [''MOMENTUM'', ''ELASTIC'', ''EFFECTIVE'', ''EXCITATION'',
                          ''IONIZATION'', ''ATTACHMENT'']
        \<longrightarrow> parse lib (line # fp) = parse lib fp)
   \<and> (list_all (\<lambda>l. strip l \<notin> set [''MOMENTUM'', ''ELASTIC'', ''EFFECTIVE'', ''EXCITATION'',
                                      ''IONIZATION'', ''ATTACHMENT'']) fp
        \<longrightarrow> parse lib fp = Inr [])
   \<and> (KEYWORDS (strip line) = Some fread \<and> fread lib fp = Inr (d, fp')
        \<longrightarrow> parse lib (line # fp)
             = (case parse lib fp' of Inl e \<Rightarrow> Inl e
                | Inr rest \<Rightarrow> Inr (d(''kind'' \<mapsto> Str (strip line)) # rest)))
   \<and> KEYWORDS ''momentum'' = None"
    unfolding dom using order skip none step lower by simp
  with header show ?thesis by blast
qed

theorem C1_records_in_header_order_witness:
  "(\<exists>p1 p2 p3. parse demo_lib
       [''Database of cross sections'', ''momentum'', ''  MOMENTUM '' @ nl, ''N2'', ''0.5'',
        ''a comment'', ''-----'', ''0.0 1.0'', ''1.0 0.5'', ''-----'', '''', ''ATTACHMENT'',
        ''O2 -> O + O-'', ''-----'', ''0.0 0.0'', ''1.0 0.5'', ''-----'', ''end'',
        ''EFFECTIVE'', ''Ar'', ''0.25'', ''-----'', ''0.0 2.0'', ''1.0 2.0'', ''-----'']
     = Inr [p1, p2, p3]
     \<and> p1 ''kind'' = Some (Str ''MOMENTUM'') \<and> p2 ''kind'' = Some (Str ''ATTACHMENT'')
     \<and> p3 ''kind'' = Some (Str ''EFFECTIVE'')
     \<and> subseq [''MOMENTUM'', ''ATTACHMENT'', ''EFFECTIVE'']
        (filter (\<lambda>k. k \<in> set [''MOMENTUM'', ''ELASTIC'', ''EFFECTIVE'', ''EXCITATION'',
                                ''IONIZATION'', ''ATTACHMENT''])
           (map strip
             [''Database of cross sections'', ''momentum'', ''  MOMENTUM '' @ nl, ''N2'', ''0.5'',
              ''a comment'', ''-----'', ''0.0 1.0'', ''1.0 0.5'', ''-----'', '''', ''ATTACHMENT'',
              ''O2 -> O + O-'', ''-----'', ''0.0 0.0'', ''1.0 0.5'', ''-----'', ''end'',
              ''EFFECTIVE'', ''Ar'', ''0.25'', ''-----'', ''0.0 2.0'', ''1.0 2.0'', ''-----''])))
   \<and> (\<exists>d. read_momentum demo_lib [''Ar'', ''0.25'', ''-----'', ''0.0 2.0'', ''1.0 2.0'', ''-----'']
            = Inr (d, [])
        \<and> parse demo_lib
            [''EFFECTIVE'' @ nl, ''Ar'', ''0.25'', ''-----'', ''0.0 2.0'', ''1.0 2.0'', ''-----'']
            = Inr [d(''kind'' \<mapsto> Str ''EFFECTIVE'')])"
proof -
  let ?fp = "[''Database of cross sections'', ''momentum'', ''  MOMENTUM '' @ nl, ''N2'', ''0.5'',
        ''a comment'', ''-----'', ''0.0 1.0'', ''1.0 0.5'', ''-----'', '''', ''ATTACHMENT'',
        ''O2 -> O + O-'', ''-----'', ''0.0 0.0'', ''1.0 0.5'', ''-----'', ''end'',
        ''EFFECTIVE'', ''Ar'', ''0.25'', ''-----'', ''0.0 2.0'', ''1.0 2.0'', ''-----'']"
  let ?blk = "[''Ar'', ''0.25'', ''-----'', ''0.0 2.0'', ''1.0 2.0'', ''-----'']"
  obtain p1 p2 p3 where p: "parse demo_lib ?fp = Inr [p1, p2, p3]"
    and k: "p1 ''kind'' = Some (Str ''MOMENTUM'')" "p2 ''kind'' = Some (Str ''ATTACHMENT'')"
      "p3 ''kind'' = Some (Str ''EFFECTIVE'')"
    by (simp add: eval_parser)
  from C1_records_in_header_order [of demo_lib ?fp "[p1, p2, p3]"] p
  obtain keys where keys: "map (\<lambda>p. p ''kind'') [p1, p2, p3] = map (\<lambda>k. Some (Str k)) keys"
    and sub: "subseq keys
        (filter (\<lambda>k. k \<in> set [''MOMENTUM'', ''ELASTIC'', ''EFFECTIVE'', ''EXCITATION'',
                                ''IONIZATION'', ''ATTACHMENT'']) (map strip ?fp))"
    by blast
  from keys k have "keys = [''MOMENTUM'', ''ATTACHMENT'', ''EFFECTIVE'']"
    by (cases keys; cases "tl keys"; cases "tl (tl keys)") auto
  with sub p k have first: "\<exists>p1 p2 p3. parse demo_lib ?fp = Inr [p1, p2, p3]
     \<and> p1 ''kind'' = Some (Str ''MOMENTUM'') \<and> p2 ''kind'' = Some (Str ''ATTACHMENT'')
     \<and> p3 ''kind'' = Some (Str ''EFFECTIVE'')
     \<and> subseq [''MOMENTUM'', ''ATTACHMENT'', ''EFFECTIVE'']
        (filter (\<lambda>k. k \<in> set [''MOMENTUM'', ''ELASTIC'', ''EFFECTIVE'', ''EXCITATION'',
                                ''IONIZATION'', ''ATTACHMENT'']) (map strip ?fp))"
    by blast
  obtain d where d: "read_momentum demo_lib ?blk = Inr (d, [])"
    by (simp add: eval_parser)
  have e: "parse demo_lib [] = Inr []"
    by (simp add: parse_def)
  have mem: "strip (''EFFECTIVE'' @ nl) \<in> set [''MOMENTUM'', ''ELASTIC'', ''EFFECTIVE'',
      ''EXCITATION'', ''IONIZATION'', ''ATTACHMENT'']"
    by (simp add: eval_strings)
  note header = C1_records_in_header_order [of demo_lib ?blk _ "''EFFECTIVE'' @ nl",
      THEN conjunct2, THEN conjunct2, THEN conjunct2, THEN conjunct1, THEN mp, OF mem]
  have "parse demo_lib ((''EFFECTIVE'' @ nl) # ?blk) = Inr [d(''kind'' \<mapsto> Str ''EFFECTIVE'')]"
    unfolding header by (simp add: eval_strings d [unfolded nl_def] e)
  with d first show ?thesis by blast
qed

subsection \<open>C6: a malformed numeric table\<close>

text \<open>
  C6, as the code has it. Take a keyword header met by the scan, with whatever records
  collected so far, and behind it the target line, the argument line unless the keyword
  is ATTACHMENT, the comment lines, a separator and the data lines up to the next
  separator or the end of the stream. The tokens of a data line are those
  \<^verbatim>\<open>np.loadtxt\<close> sees: the text of the trimmed line before its first \<^verbatim>\<open>#\<close>, split at
  whitespace. If some data line holds a token that the converter of \<^verbatim>\<open>np.loadtxt\<close>
  rejects, or holds tokens and another number of them than another data line that holds
  tokens, the parse ends with ValueError: it returns no record, neither of this block nor
  of the blocks before it. If no data line is such, the table does not fail the block:
  \<^verbatim>\<open>_read_block\<close> returns. So the lines need not hold two tokens, and a line without a
  token before \<^verbatim>\<open>#\<close> is passed over.
\<close>

theorem C6_malformed_table_aborts_parse:
  assumes "KEYWORDS (strip hdr) = Some fread"
    and "fp = (if strip hdr = ''ATTACHMENT'' then [tline] else [tline, aline])
              @ comment @ sep # table @ rest"
    and "list_all (\<lambda>l. \<not> RE_SEP_match (strip l)) comment"
    and "RE_SEP_match (strip sep)"
    and "list_all (\<lambda>l. \<not> RE_SEP_match (strip l)) table"
    and "rest = [] \<or> RE_SEP_match (strip (hd rest))"
  shows "(line \<in> set table
          \<and> (\<not> list_all (\<lambda>tok. np_float lib tok \<noteq> None) (split_line (strip line))
             \<or> (\<exists>other \<in> set table.
                   split_line (strip line) \<noteq> [] \<and> split_line (strip other) \<noteq> []
                   \<and> length (split_line (strip line)) \<noteq> length (split_line (strip other))))
          \<longrightarrow> parse_loop lib processes (hdr # fp) = Inl ValueError)
       \<and> (list_all (\<lambda>l. list_all (\<lambda>tok. np_float lib tok \<noteq> None) (split_line (strip l))) table
          \<and> list_all (\<lambda>l. list_all (\<lambda>other. split_line (strip l) = []
                \<or> split_line (strip other) = []
                \<or> length (split_line (strip l)) = length (split_line (strip other))) table) table
          \<longrightarrow> (\<exists>blk fp'. read_block lib fp (strip hdr \<noteq> ''ATTACHMENT'') = Inr (blk, fp')))"
proof -
  let ?body = "comment @ sep # table @ rest"
  have first: "read_until_sep ?body = (map strip comment, table @ rest)"
    using assms(3,4) by (rule read_until_sep_append)
  have second: "fst (read_until_sep (table @ rest)) = map strip table"
  proof (cases rest)
    case Nil
    then show ?thesis
      using read_until_sep_no_sep [OF assms(5)] by simp
  next
    case (Cons sep2 rest2)
    with assms(6) have "RE_SEP_match (strip sep2)" by simp
    from read_until_sep_append [OF assms(5) this] Cons show ?thesis by simp
  qed
  have segment: "fst (read_until_sep (snd (read_until_sep ?body))) = map strip table"
    using first second by simp
  have bad: "parse_loop lib processes (hdr # fp) = Inl ValueError"
    if member: "line \<in> set table"
      and malformed: "\<not> list_all (\<lambda>tok. np_float lib tok \<noteq> None) (split_line (strip line))
             \<or> (\<exists>other \<in> set table.
                   split_line (strip line) \<noteq> [] \<and> split_line (strip other) \<noteq> []
                   \<and> length (split_line (strip line)) \<noteq> length (split_line (strip other)))"
  proof -
    have "loadtxt_tolist lib (map strip table) = Inl ValueError"
    proof (rule loadtxt_tolist_bad [of "strip line"])
      show "strip line \<in> set (map strip table)"
        using member by simp
      show "\<not> list_all (\<lambda>tok. np_float lib tok \<noteq> None) (split_line (strip line))
        \<or> (\<exists>other\<in>set (map strip table). split_line (strip line) \<noteq> [] \<and> split_line other \<noteq> []
              \<and> length (split_line (strip line)) \<noteq> length (split_line other))"
        using malformed by auto
    qed
    then have table: "loadtxt_tolist lib (fst (read_until_sep (snd (read_until_sep ?body))))
        = Inl ValueError"
      using segment by simp
    have "fread lib fp = Inl ValueError"
    proof (cases "strip hdr = ''ATTACHMENT''")
      case True
      then have "fread = read_attachment" and "fp = tline # ?body"
        using KEYWORDS_ATTACHMENT [OF assms(1)] assms(2) by simp_all
      then show ?thesis
        using read_block_table_error(2) [OF table] by (simp add: reader_block_error)
    next
      case False
      then have "fread = read_momentum \<or> fread = read_excitation"
        and "fp = tline # aline # ?body"
        using KEYWORDS_ATTACHMENT [OF assms(1)] assms(2) by simp_all
      then show ?thesis
        using read_block_table_error(1) [OF table] by (auto simp: reader_block_error)
    qed
    with assms(1) show ?thesis by simp
  qed
  have good: "\<exists>blk fp'. read_block lib fp (strip hdr \<noteq> ''ATTACHMENT'') = Inr (blk, fp')"
    if tokens: "list_all (\<lambda>l. list_all (\<lambda>tok. np_float lib tok \<noteq> None) (split_line (strip l))) table"
      and columns: "list_all (\<lambda>l. list_all (\<lambda>other. split_line (strip l) = []
                \<or> split_line (strip other) = []
                \<or> length (split_line (strip l)) = length (split_line (strip other))) table) table"
  proof -
    have "\<exists>data. loadtxt_tolist lib (map strip table) = Inr data"
      using tokens columns by (intro loadtxt_tolist_good) (simp_all add: list_all_iff)
    then obtain data
      where "loadtxt_tolist lib (fst (read_until_sep (snd (read_until_sep ?body)))) = Inr data"
      using segment by auto
    note ok = read_block_table_ok [OF this]
    show ?thesis
    proof (cases "strip hdr = ''ATTACHMENT''")
      case True
      with assms(2) ok(2) [of tline] show ?thesis by simp
    next
      case False
      with assms(2) ok(1) [of tline aline] show ?thesis by simp
    qed
  qed
  from bad good show ?thesis by blast
qed

theorem C6_malformed_table_aborts_parse_witness:
  "parse demo_lib
     [''MOMENTUM'', ''N2'', ''0.5'', ''first block'', ''-----'', ''0.0 1.0'', ''1.0 0.5'', ''-----'',
      ''ELASTIC'', ''O2'', ''0.5'', ''-----'', ''0.0 1.0'', ''1.0 abc'', ''-----'']
   = Inl ValueError
   \<and> (\<exists>blk fp'. read_block demo_lib
         [''O2'', ''0.5'', ''-----'', ''0.0 1.0 # abc'', ''# only text'', ''1.0 0.5'', ''-----'']
         True = Inr (blk, fp'))"
proof -
  let ?fp = "[''O2'', ''0.5'', ''-----'', ''0.0 1.0'', ''1.0 abc'', ''-----'']"
  let ?fp2 = "[''O2'', ''0.5'', ''-----'', ''0.0 1.0 # abc'', ''# only text'', ''1.0 0.5'', ''-----'']"
  obtain p where first: "parse_loop demo_lib []
     ([''MOMENTUM'', ''N2'', ''0.5'', ''first block'', ''-----'', ''0.0 1.0'', ''1.0 0.5'', ''-----'']
       @ ''ELASTIC'' # ?fp)
     = parse_loop demo_lib [p] (''ELASTIC'' # ?fp)"
    by (simp add: eval_parser del: parse_loop.simps(2)
        add: parse_loop.simps(2) [of _ _ "''MOMENTUM''"])
  have key: "KEYWORDS (strip ''ELASTIC'') = Some read_momentum"
    by (simp add: KEYWORDS_def eval_strings)
  have layout: "?fp = (if strip ''ELASTIC'' = ''ATTACHMENT'' then [''O2''] else [''O2'', ''0.5''])
      @ [] @ ''-----'' # [''0.0 1.0'', ''1.0 abc''] @ [''-----'']"
    by (simp add: eval_strings)
  have layout2: "?fp2 = (if strip ''ELASTIC'' = ''ATTACHMENT'' then [''O2''] else [''O2'', ''0.5''])
      @ [] @ ''-----'' # [''0.0 1.0 # abc'', ''# only text'', ''1.0 0.5''] @ [''-----'']"
    by (simp add: eval_strings)
  have c: "list_all (\<lambda>l. \<not> RE_SEP_match (strip l)) []"
    by simp
  have s: "RE_SEP_match (strip ''-----'')"
    by (simp add: eval_strings RE_SEP_match_def)
  have t: "list_all (\<lambda>l. \<not> RE_SEP_match (strip l)) [''0.0 1.0'', ''1.0 abc'']"
    by (simp add: eval_strings RE_SEP_match_def)
  have t2: "list_all (\<lambda>l. \<not> RE_SEP_match (strip l)) [''0.0 1.0 # abc'', ''# only text'', ''1.0 0.5'']"
    by (simp add: eval_strings RE_SEP_match_def)
  have r: "[''-----''] = [] \<or> RE_SEP_match (strip (hd [''-----'']))"
    by (simp add: eval_strings RE_SEP_match_def)
  have bad: "''1.0 abc'' \<in> set [''0.0 1.0'', ''1.0 abc'']
      \<and> (\<not> list_all (\<lambda>tok. np_float demo_lib tok \<noteq> None) (split_line (strip ''1.0 abc''))
         \<or> (\<exists>other \<in> set [''0.0 1.0'', ''1.0 abc''].
               split_line (strip ''1.0 abc'') \<noteq> [] \<and> split_line (strip other) \<noteq> []
               \<and> length (split_line (strip ''1.0 abc'')) \<noteq> length (split_line (strip other))))"
    by (simp add: eval_strings split_line_def demo_lib_def demo_float_def)
  have good: "list_all (\<lambda>l. list_all (\<lambda>tok. np_float demo_lib tok \<noteq> None) (split_line (strip l)))
        [''0.0 1.0 # abc'', ''# only text'', ''1.0 0.5'']
      \<and> list_all (\<lambda>l. list_all (\<lambda>other. split_line (strip l) = []
                \<or> split_line (strip other) = []
                \<or> length (split_line (strip l)) = length (split_line (strip other)))
            [''0.0 1.0 # abc'', ''# only text'', ''1.0 0.5''])
          [''0.0 1.0 # abc'', ''# only text'', ''1.0 0.5'']"
    by (simp add: eval_strings split_line_def demo_lib_def demo_float_def)
  have e: "(strip ''ELASTIC'' \<noteq> ''ATTACHMENT'') = True"
    by (simp add: eval_strings)
  note fails = C6_malformed_table_aborts_parse [OF key layout c s t r,
      of "''1.0 abc''" demo_lib "[p]", THEN conjunct1, THEN mp, OF bad]
  note reads = C6_malformed_table_aborts_parse [OF key layout2 c s t2 r,
      of _ demo_lib, THEN conjunct2, THEN mp, OF good]
  from fails first reads show ?thesis
    unfolding e by (simp add: parse_def)
qed

text \<open>
  C6 as claimed fails: a data line need not hold exactly two numbers. A table of lines of
  three numbers each is read, and so is a table with an empty line in it, and so is a
  table with text behind a \<^verbatim>\<open>#\<close>.
\<close>

theorem C6_counterexample:
  "(\<exists>p. parse demo_lib
       [''MOMENTUM'', ''N2'', ''0.5'', ''-----'', ''0.0 1.0 0.5'', ''1.0 0.5 0.0'', ''-----'']
      = Inr [p]
      \<and> p ''data'' = Some (List [List [Float (Finite 0), Float (Finite 1), Float (Finite (1 / 2))],
                                  List [Float (Finite 1), Float (Finite (1 / 2)), Float (Finite 0)]]))
   \<and> (\<exists>p. parse demo_lib
       [''MOMENTUM'', ''N2'', ''0.5'', ''-----'', ''0.0 1.0'', '''', ''1.0 0.5'', ''-----'']
      = Inr [p]
      \<and> p ''data'' = Some (List [List [Float (Finite 0), Float (Finite 1)],
                                  List [Float (Finite 1), Float (Finite (1 / 2))]]))
   \<and> (\<exists>p. parse demo_lib
       [''MOMENTUM'', ''N2'', ''0.5'', ''-----'', ''0.0 1.0 # abc'', ''# only text'', ''1.0 0.5'',
        ''-----'']
      = Inr [p]
      \<and> p ''data'' = Some (List [List [Float (Finite 0), Float (Finite 1)],
                                  List [Float (Finite 1), Float (Finite (1 / 2))]]))"
  by (simp add: eval_parser)

subsection \<open>C4: ATTACHMENT blocks\<close>

text \<open>
  C4 at its own example, the ATTACHMENT block with the target line \<^verbatim>\<open>O2\<close> and the one
  data row \<^verbatim>\<open>0.0 0.0\<close>. The record is as claimed in its kind, its target, its threshold
  and the missing product, but \<^verbatim>\<open>np.loadtxt\<close> squeezes a table of one row: \<open>data\<close> is the
  flat list of the two numbers, not a list holding one pair, and the converter fails on
  it with TypeError when it indexes a float.
\<close>

theorem C4_single_row_table_is_flat:
  "(\<exists>p. parse demo_lib [''ATTACHMENT'', ''O2'', ''-----'', ''0.0 0.0'', ''-----''] = Inr [p]
      \<and> p ''kind'' = Some (Str ''ATTACHMENT'') \<and> p ''target'' = Some (Str ''O2'')
      \<and> p ''threshold'' = Some (Float (Finite 0)) \<and> p ''product'' = None
      \<and> p ''data'' = Some (List [Float (Finite 0), Float (Finite 0)])
      \<and> p ''data'' \<noteq> Some (List [List [Float (Finite 0), Float (Finite 0)]]))
   \<and> main demo_lib [''ATTACHMENT'', ''O2 -> O + O-'', ''-----'', ''0.0 0.0'', ''-----'']
      = Inl TypeError"
  by (simp add: eval_parser main_def process_node_def lookup_def XMLnode_init_def setitem_def
      addChild_def add_products_threshold_def iter_def subscript_def format_E_def)

subsection \<open>C5: rendering an ATTACHMENT record without a product\<close>

text \<open>
  C5 at an ATTACHMENT block whose target line \<^verbatim>\<open>O2\<close> has no arrow. The parser returns a
  record without a \<open>product\<close> key; the ATTACHMENT branch of the converter reads
  \<^verbatim>\<open>p['product']\<close> all the same, so the conversion ends with KeyError and no document
  is produced.
\<close>

theorem C5_attachment_without_arrow_KeyError:
  "(\<exists>p. parse demo_lib [''ATTACHMENT'', ''O2'', ''-----'', ''0.0 0.0'', ''1.0 0.5'', ''-----'']
          = Inr [p]
      \<and> p ''product'' = None \<and> process_node demo_lib 0 p = Inl KeyError)
   \<and> main demo_lib [''ATTACHMENT'', ''O2'', ''-----'', ''0.0 0.0'', ''1.0 0.5'', ''-----'']
      = Inl KeyError"
  by (simp add: eval_parser main_def process_node_def lookup_def XMLnode_init_def setitem_def
      addChild_def add_products_threshold_def)

subsection \<open>C8: indentation\<close>

text \<open>
  C8, as the code has it. Take any element with children, whatever its value and its
  attributes, written at a level up to 6. The table \<open>indent\<close> holds one space for each
  level up to level 8. The text of the element is its opening tag behind \<open>level\<close> spaces,
  its value, then for each child in order a newline and the text of the child written at
  \<open>level + 2\<close>, then a newline and the closing tag behind \<open>level\<close> spaces. The text of a
  child that is an element begins with \<open>level + 2\<close> spaces and its opening tag, and that of
  a comment with a newline, \<open>level + 2\<close> spaces and \<^verbatim>\<open><!--\<close>: every child stands two
  spaces further to the right than its parent.
\<close>

theorem C8_children_two_levels_two_spaces:
  assumes "level \<le> 6" and "name \<noteq> ''_comment_''" and "children \<noteq> []"
    and "write_node (XMLnode name v attribs children) s level = Inr out"
  shows "getitem indent level = Inr (replicate level CHR '' '')
       \<and> getitem indent (level + 2) = Inr (replicate (level + 2) CHR '' '')
       \<and> (\<exists>vtext texts.
             (if v = [] then vtext = []
              else write_value (XMLnode name v attribs children) [] level = Inr vtext)
           \<and> list_all2
                (\<lambda>c t. write_node c [] (level + 2) = Inr t
                   \<and> (if node_name c = ''_comment_''
                      then \<exists>tail. t = (nl @ replicate (level + 2) CHR '' '' @ ''<!--'') # tail
                      else \<exists>tail. t = [replicate (level + 2) CHR '' '', ''<'', node_name c] @ tail))
                children texts
           \<and> out = s @ [replicate level CHR '' '', ''<'', name]
                     @ write_attribs (XMLnode name v attribs children) [] @ [''>''] @ vtext
                     @ concat (map (\<lambda>t. nl # t) texts)
                     @ [nl, replicate level CHR '' '', ''</'', name, ''>''])"
proof -
  let ?n = "XMLnode name v attribs children"
  let ?A = "map (\<lambda>(a, v). '' '' @ a @ ''='' @ dquote @ v @ dquote) attribs"
  have ind: "getitem indent level = Inr (replicate level CHR '' '')"
    using assms(1) by (intro indent_upto_8) simp
  have ind2: "getitem indent (level + 2) = Inr (replicate (level + 2) CHR '' '')"
    using assms(1) by (intro indent_upto_8) simp
  note unfold = write_node_unfold [OF assms(2) ind, of v attribs children s]
  from write_value_ok [OF ind, of ?n]
  obtain vt where vt: "\<And>s. write_value ?n s level = Inr (s @ vt)"
    by blast
  define vtext where "vtext = (if v = [] then [] else vt)"
  have value_text: "if v = [] then vtext = [] else write_value ?n [] level = Inr vtext"
    using vt [of "[]"] by (simp add: vtext_def)
  let ?s2 = "s @ [replicate level CHR '' '', ''<'', name] @ ?A @ [''>''] @ vtext"
  from assms(3,4)
  have "(case write_children children ?s2 level of Inl e \<Rightarrow> Inl e
         | Inr s3 \<Rightarrow> Inr ((if children \<noteq> [] then s3 @ [nl, replicate level CHR '' '']
                                else s3) @ [''</'', name, ''>''])) = Inr out"
    unfolding unfold by (simp add: vt vtext_def split: if_splits)
  then obtain s3 where s3: "write_children children ?s2 level = Inr s3"
    and "out = (if children \<noteq> [] then s3 @ [nl, replicate level CHR '' ''] else s3)
                 @ [''</'', name, ''>'']"
    by (cases "write_children children ?s2 level") auto
  with assms(3) have out: "out = s3 @ [nl, replicate level CHR '' ''] @ [''</'', name, ''>'']"
    by simp
  from write_children_texts [OF s3] obtain texts
    where texts: "list_all2 (\<lambda>c t. write_node c [] (level + 2) = Inr t) children texts"
      and s3_eq: "s3 = ?s2 @ concat (map (\<lambda>t. nl # t) texts)"
    by blast
  from texts have begins: "list_all2
      (\<lambda>c t. write_node c [] (level + 2) = Inr t
         \<and> (if node_name c = ''_comment_''
            then \<exists>tail. t = (nl @ replicate (level + 2) CHR '' '' @ ''<!--'') # tail
            else \<exists>tail. t = [replicate (level + 2) CHR '' '', ''<'', node_name c] @ tail))
      children texts"
  proof (rule list_all2_mono)
    fix c t
    assume "write_node c [] (level + 2) = Inr t"
    then show "write_node c [] (level + 2) = Inr t
         \<and> (if node_name c = ''_comment_''
            then \<exists>tail. t = (nl @ replicate (level + 2) CHR '' '' @ ''<!--'') # tail
            else \<exists>tail. t = [replicate (level + 2) CHR '' '', ''<'', node_name c] @ tail)"
      using write_node_begins [OF _ ind2, of c t] by simp
  qed
  have "out = s @ [replicate level CHR '' '', ''<'', name]
                   @ write_attribs ?n [] @ [''>''] @ vtext
                   @ concat (map (\<lambda>t. nl # t) texts)
                   @ [nl, replicate level CHR '' '', ''</'', name, ''>'']"
    using out s3_eq by (simp add: write_attribs_def)
  with value_text begins have "(\<exists>vtext texts.
             (if v = [] then vtext = []
              else write_value (XMLnode name v attribs children) [] level = Inr vtext)
           \<and> list_all2
                (\<lambda>c t. write_node c [] (level + 2) = Inr t
                   \<and> (if node_name c = ''_comment_''
                      then \<exists>tail. t = (nl @ replicate (level + 2) CHR '' '' @ ''<!--'') # tail
                      else \<exists>tail. t = [replicate (level + 2) CHR '' '', ''<'', node_name c] @ tail))
                children texts
           \<and> out = s @ [replicate level CHR '' '', ''<'', name]
                     @ write_attribs (XMLnode name v attribs children) [] @ [''>''] @ vtext
                     @ concat (map (\<lambda>t. nl # t) texts)
                     @ [nl, replicate level CHR '' '', ''</'', name, ''>''])"
    by blast
  with ind ind2 show ?thesis
    by blast
qed

theorem C8_children_two_levels_two_spaces_witness:
  "write_node (XMLnode ''process'' [] [(''id'', ''0'')]
       [XMLnode ''reactants'' ''N2'' [] [], XMLnode ''_comment_'' ''hi'' [] [],
                XMLnode ''data'' [] [] [XMLnode ''row'' [] [] []]]) [] 2
     = Inr [''  '', ''<'', ''process'', '' id='' @ dquote @ ''0'' @ dquote, ''>'',
              nl, ''    '', ''<'', ''reactants'', ''>'', ''N2'', ''</'', ''reactants'', ''>'',
              nl, nl @ ''    <!--'', '' hi -->'',
              nl, ''    '', ''<'', ''data'', ''>'', nl, ''      '', ''<'', ''row'', ''/>'', nl,
              ''    '', ''</'', ''data'', ''>'',
              nl, ''  '', ''</'', ''process'', ''>'']
   \<and> (\<exists>vtext texts.
           (if ([]::string) = [] then vtext = []
            else write_value (XMLnode ''process'' ([]::string) [(''id'', ''0'')] [XMLnode ''reactants'' ''N2'' [] [], XMLnode ''_comment_'' ''hi'' [] [],
                XMLnode ''data'' [] [] [XMLnode ''row'' [] [] []]]) [] 2 = Inr vtext)
         \<and> list_all2
              (\<lambda>c t. write_node c [] (2 + 2) = Inr t
                 \<and> (if node_name c = ''_comment_''
                    then \<exists>tail. t = (nl @ replicate (2 + 2) CHR '' '' @ ''<!--'') # tail
                    else \<exists>tail. t = [replicate (2 + 2) CHR '' '', ''<'', node_name c] @ tail))
              [XMLnode ''reactants'' ''N2'' [] [], XMLnode ''_comment_'' ''hi'' [] [],
                XMLnode ''data'' [] [] [XMLnode ''row'' [] [] []]] texts
         \<and> [''  '', ''<'', ''process'', '' id='' @ dquote @ ''0'' @ dquote, ''>'',
              nl, ''    '', ''<'', ''reactants'', ''>'', ''N2'', ''</'', ''reactants'', ''>'',
              nl, nl @ ''    <!--'', '' hi -->'',
              nl, ''    '', ''<'', ''data'', ''>'', nl, ''      '', ''<'', ''row'', ''/>'', nl,
              ''    '', ''</'', ''data'', ''>'',
              nl, ''  '', ''</'', ''process'', ''>''] = [] @ [replicate 2 CHR '' '', ''<'', ''process'']
                   @ write_attribs (XMLnode ''process'' ([]::string) [(''id'', ''0'')] [XMLnode ''reactants'' ''N2'' [] [], XMLnode ''_comment_'' ''hi'' [] [],
                XMLnode ''data'' [] [] [XMLnode ''row'' [] [] []]]) [] @ [''>''] @ vtext
                   @ concat (map (\<lambda>t. nl # t) texts)
                   @ [nl, replicate 2 CHR '' '', ''</'', ''process'', ''>''])"
proof -
  let ?kids = "[XMLnode ''reactants'' ''N2'' [] [], XMLnode ''_comment_'' ''hi'' [] [],
                XMLnode ''data'' [] [] [XMLnode ''row'' [] [] []]]"
  let ?out = "[''  '', ''<'', ''process'', '' id='' @ dquote @ ''0'' @ dquote, ''>'',
              nl, ''    '', ''<'', ''reactants'', ''>'', ''N2'', ''</'', ''reactants'', ''>'',
              nl, nl @ ''    <!--'', '' hi -->'',
              nl, ''    '', ''<'', ''data'', ''>'', nl, ''      '', ''<'', ''row'', ''/>'', nl,
              ''    '', ''</'', ''data'', ''>'',
              nl, ''  '', ''</'', ''process'', ''>'']"
  have l: "(2::nat) \<le> 6" by simp
  have n: "''process'' \<noteq> ''_comment_''" by simp
  have c: "?kids \<noteq> []" by simp
  have ev: "write_node (XMLnode ''process'' [] [(''id'', ''0'')] ?kids) [] 2 = Inr ?out"
    by (simp add: write_attribs_def write_value_def write_comment_def getitem_def indent_def
        lstrip_def isspace_def nl_def)
  note C8_children_two_levels_two_spaces [OF l n c ev, THEN conjunct2, THEN conjunct2]
  with ev show ?thesis
    by (rule conjI)
qed

text \<open>
  C8 as claimed fails: in the text of a root with a child and a grandchild, the child
  is indented by two spaces and the grandchild by four, not by four and eight.
\<close>

theorem C8_counterexample:
  "XMLnode_write (XMLnode ''a'' [] [] [XMLnode ''b'' [] [] [XMLnode ''c'' [] [] []]])
     = Inr (''<?xml version='' @ dquote @ ''1.0'' @ dquote @ ''?>'' @ nl
            @ ''<a>'' @ nl @ ''  <b>'' @ nl @ ''    <c/>'' @ nl @ ''  </b>'' @ nl @ ''</a>'' @ nl)
   \<and> length (indent ! 2) = length (indent ! 0) + 2
   \<and> length (indent ! 2) \<noteq> length (indent ! 0) + 4"
  by (simp add: XMLnode_write_def write_attribs_def getitem_def indent_def nl_def dquote_def)

subsection \<open>C9: comments\<close>

text \<open>
  C9, as the code has it. A comment node is created with the leading whitespace of its
  text stripped; nothing is stripped at the end. It is written as a newline, the
  indentation and \<^verbatim>\<open><!--\<close>, then the value and \<^verbatim>\<open>-->\<close>. A value that is not empty
  gets one space in front, and one space behind unless it ends in a space already; an
  empty value gets none.
\<close>

theorem C9_comment_padding:
  assumes "level < 16"
  shows "write_node (XMLnode_init lib ''_comment_'' (Str text)) s level
           = Inr (s @ [nl @ indent ! level @ ''<!--'',
                       (if lstrip text = [] then []
                        else CHR '' '' # lstrip text
                               @ (if last (lstrip text) = CHR '' '' then [] else '' ''))
                       @ ''-->''])"
proof (cases "lstrip text = []")
  case True
  then show ?thesis
    using getitem_indent_less [OF assms]
    by (simp add: XMLnode_init_def write_comment_def)
next
  case False
  then show ?thesis
    using getitem_indent_less [OF assms] lstrip_hd [OF False]
    by (simp add: XMLnode_init_def write_comment_def Let_def)
qed

theorem C9_comment_padding_witness:
  "write_node (XMLnode_init demo_lib ''_comment_'' (Str ''hello'')) [] 0
     = Inr [nl @ ''<!--'', '' hello -->'']"
proof -
  have l: "(0::nat) < 16" by simp
  show ?thesis
    using C9_comment_padding [OF l, of demo_lib "''hello''" "[]"]
    by (simp add: lstrip_def isspace_def indent_def)
qed

text \<open>
  C9 as claimed fails: the two spaces at the end of the value \<^verbatim>\<open>hello  \<close> are kept, so
  the comment does not end in exactly one space, and the empty comment has no space at
  all.
\<close>

theorem C9_counterexample:
  "write_node (XMLnode_init demo_lib ''_comment_'' (Str ''hello  '')) [] 0
     = Inr [nl @ ''<!--'', '' hello  -->'']
   \<and> write_node (XMLnode_init demo_lib ''_comment_'' (Str '''')) [] 0
     = Inr [nl @ ''<!--'', ''-->'']"
  by (simp add: XMLnode_init_def write_comment_def getitem_def indent_def lstrip_def isspace_def)

end
